theory Spec2Isabelle
  imports Complex_Main
begin

unbundle bit_operations_syntax

section \<open>Outcomes of C code\<close>

text \<open>
  The plugin is C. A call either returns a value, ends the whole process through
  \<^verbatim>\<open>exit\<close>, or runs into behaviour the C standard leaves undefined (a read outside an
  array, an overflowing signed operation). All three are values of the model.
\<close>

datatype undefined_behaviour = OutOfBounds | SignedOverflow

datatype 'a outcome = Returned 'a | Exited int | Undefined undefined_behaviour

definition in_int32 :: "int \<Rightarrow> bool" where
  "in_int32 x \<longleftrightarrow> - (2 ^ 31) \<le> x \<and> x < 2 ^ 31"

definition in_int64 :: "int \<Rightarrow> bool" where
  "in_int64 x \<longleftrightarrow> - (2 ^ 63) \<le> x \<and> x < 2 ^ 63"

section \<open>Streams, packets and the trace of a run\<close>

datatype AVMediaType =
    AVMEDIA_TYPE_UNKNOWN | AVMEDIA_TYPE_VIDEO | AVMEDIA_TYPE_AUDIO | AVMEDIA_TYPE_DATA
  | AVMEDIA_TYPE_SUBTITLE | AVMEDIA_TYPE_ATTACHMENT

record AVRational =
  num :: int
  den :: int

record AVCodecParameters =
  codec_type :: AVMediaType
  codec_id :: nat

record AVStream =
  codecpar :: AVCodecParameters
  time_base :: AVRational

record AVPacket =
  stream_index :: int
  pts :: int
  dts :: int
  duration :: int
  flags :: int
  pos :: int

text \<open>What the code does to the outside world, in program order.\<close>

datatype event =
    EvStderr string
  | EvStdout string
  | EvMsgErr string
  | EvMsgInfo string
  | EvOpenInput string bool
  | EvFindStreamInfo bool
  | EvAllocOutput string bool
  | EvAvioOpen string bool
  | EvWriteHeader bool
  | EvSeekFrame int int bool
  | EvReadFrame "AVPacket option"
  | EvWriteFrame AVPacket bool
  | EvWriteTrailer
  | EvAvioClose
  | EvFreeContext
  | EvCloseInput

section \<open>parse_time\<close>

text \<open>
  \<^verbatim>\<open>sscanf(time_str, "%d:%d", &m, &s)\<close> of the C library: each \<^verbatim>\<open>%d\<close> skips white
  space, then reads an optional sign and a non-empty run of decimal digits; the colon
  must follow the first number at once; whatever follows the second number is ignored.
  The call returns the number of fields converted, or EOF when the input ends before the
  first conversion: the result \<open>Scan2\<close> is the return value 2, with the two numbers.
\<close>

definition isspace :: "char \<Rightarrow> bool" where
  "isspace c \<longleftrightarrow> c \<in> set [CHR 0x20, CHR 0x09, CHR 0x0A, CHR 0x0B, CHR 0x0C, CHR 0x0D]"

definition isdigit :: "char \<Rightarrow> bool" where
  "isdigit c \<longleftrightarrow> c \<in> set ''0123456789''"

definition digit_val :: "char \<Rightarrow> int" where
  "digit_val c = int (of_char c) - 48"

fun scan_digits :: "int \<Rightarrow> string \<Rightarrow> int \<times> string" where
  "scan_digits acc [] = (acc, [])"
| "scan_digits acc (c # cs) =
     (if isdigit c then scan_digits (acc * 10 + digit_val c) cs else (acc, c # cs))"

fun scan_unsigned :: "string \<Rightarrow> (int \<times> string) option" where
  "scan_unsigned [] = None"
| "scan_unsigned (c # cs) = (if isdigit c then Some (scan_digits 0 (c # cs)) else None)"

fun scan_signed :: "string \<Rightarrow> (int \<times> string) option" where
  "scan_signed [] = None"
| "scan_signed (c # cs) =
     (if c = CHR ''-'' then
        (case scan_unsigned cs of None \<Rightarrow> None | Some (v, rest) \<Rightarrow> Some (- v, rest))
      else if c = CHR ''+'' then scan_unsigned cs
      else scan_unsigned (c # cs))"

definition scan_d :: "string \<Rightarrow> (int \<times> string) option" where
  "scan_d str = scan_signed (dropWhile isspace str)"

datatype scanned = ScanEOF | Scan0 | Scan1 int | Scan2 int int

definition sscanf_d_colon_d :: "string \<Rightarrow> scanned" where
  "sscanf_d_colon_d str =
     (if dropWhile isspace str = [] then ScanEOF
      else case scan_d str of
        None \<Rightarrow> Scan0
      | Some (m, rest) \<Rightarrow>
          (case rest of
             [] \<Rightarrow> Scan1 m
           | c # rest' \<Rightarrow>
               if c \<noteq> CHR '':'' then Scan1 m
               else (case scan_d rest' of None \<Rightarrow> Scan1 m | Some (s, _) \<Rightarrow> Scan2 m s)))"

text \<open>
  \<^verbatim>\<open>parse_time\<close>: anything but two converted fields prints a message and ends the
  process with \<^verbatim>\<open>exit(1)\<close>. The fields are C \<^verbatim>\<open>int\<close>s and so is \<^verbatim>\<open>m * 60 + s\<close>: a
  field or a result outside 32 bits is undefined behaviour.
\<close>

definition parse_time :: "string \<Rightarrow> int outcome \<times> event list" where
  "parse_time time_str =
     (case sscanf_d_colon_d time_str of
        Scan2 m s \<Rightarrow>
          if in_int32 m \<and> in_int32 s \<and> in_int32 (m * 60) \<and> in_int32 (m * 60 + s)
          then (Returned (m * 60 + s), [])
          else (Undefined SignedOverflow, [])
      | _ \<Rightarrow> (Exited 1, [EvStderr ''Invalid time format (use mm:ss)'']))"

section \<open>The libavformat and VLC interface\<close>

text \<open>
  Constants of the headers the plugin includes (\<^verbatim>\<open>libavutil/avutil.h\<close>,
  \<^verbatim>\<open>libavcodec/packet.h\<close>, \<^verbatim>\<open>vlc_common.h\<close>), with the values those headers give.
  \<^verbatim>\<open>AV_NOPTS_VALUE\<close> is the smallest 64-bit integer and marks an undefined time stamp.
\<close>

definition AV_NOPTS_VALUE :: int where
  "AV_NOPTS_VALUE = - (2 ^ 63)"

definition AV_PKT_FLAG_KEY :: int where
  "AV_PKT_FLAG_KEY = 1"

definition AV_TIME_BASE :: int where
  "AV_TIME_BASE = 1000000"

definition AV_TIME_BASE_Q :: AVRational where
  "AV_TIME_BASE_Q = \<lparr>num = 1, den = 1000000\<rparr>"

definition VLC_SUCCESS :: int where
  "VLC_SUCCESS = 0"

definition VLC_EGENERIC :: int where
  "VLC_EGENERIC = - 1"

text \<open>
  The library calls are the environment of the plugin. Their results are parameters:
  what opening and probing the input gives, which calls succeed, the packets that
  \<^verbatim>\<open>av_read_frame\<close> delivers after the seek (a file: finitely many, then end of
  input), the rounding of \<^verbatim>\<open>av_rescale_q\<close>, and the floating-point product
  \<^verbatim>\<open>ts * av_q2d(time_base)\<close>. That product is only compared with the two bounds of the
  window, which are integers: whatever the double is (rounded, infinite, not a number),
  the two tests end the loop, skip the packet or accept it, and some rational value
  gives each of the three. The theorems hold for every such function.
\<close>

datatype opened = OpenFailed | ProbeFailed | Opened "AVStream list"

record env =
  open_input :: "string \<Rightarrow> opened"
  alloc_output_ok :: "string \<Rightarrow> bool"
  malloc_ok :: bool
  new_stream_ok :: "nat \<Rightarrow> bool"
  avio_open_ok :: "string \<Rightarrow> bool"
  write_header_ok :: bool
  oformat_nofile :: bool
  av_rescale_q :: "int \<Rightarrow> AVRational \<Rightarrow> AVRational \<Rightarrow> int"
  ts_seconds :: "int \<Rightarrow> AVRational \<Rightarrow> rat"
  seek_ok :: "int \<Rightarrow> int \<Rightarrow> bool"
  frames :: "AVPacket list"
  write_frame_ok :: "nat \<Rightarrow> bool"

text \<open>The exact product, for running the model on concrete inputs.\<close>

definition exact_seconds :: "int \<Rightarrow> AVRational \<Rightarrow> rat" where
  "exact_seconds ts tb = of_int ts * (of_int (num tb) / of_int (den tb))"

section \<open>The state of Trim\<close>

text \<open>
  \<^verbatim>\<open>StreamContext\<close>: the time base of an entry is written only for a copied stream;
  \<^verbatim>\<open>av_malloc_array\<close> leaves it uninitialised otherwise (\<open>None\<close>).
\<close>

record StreamContext =
  start_pts :: int
  start_dts :: int
  ctx_time_base :: "AVRational option"

text \<open>The local variables of \<^verbatim>\<open>Trim\<close> and the stream array of the output context.\<close>

record trim_state =
  video_stream_idx :: int
  stream_ctx :: "StreamContext list"
  out_streams :: "AVStream list"
  got_video_keyframe :: bool
  last_video_dts :: int

definition trim_init :: trim_state where
  "trim_init = \<lparr>video_stream_idx = - 1, stream_ctx = [], out_streams = [],
     got_video_keyframe = False, last_video_dts = AV_NOPTS_VALUE\<rparr>"

definition copied_kind :: "AVStream \<Rightarrow> bool" where
  "copied_kind s \<longleftrightarrow>
     \<not> (codec_type (codecpar s) \<noteq> AVMEDIA_TYPE_AUDIO \<and> codec_type (codecpar s) \<noteq> AVMEDIA_TYPE_VIDEO)"

text \<open>
  \<^verbatim>\<open>avformat_new_stream\<close> followed by \<^verbatim>\<open>avcodec_parameters_copy\<close> and the copy of the
  time base: the new output stream.
\<close>

definition new_out_stream :: "AVStream \<Rightarrow> AVStream" where
  "new_out_stream in_stream = \<lparr>codecpar = codecpar in_stream, time_base = time_base in_stream\<rparr>"

text \<open>
  The loop over \<^verbatim>\<open>in->streams\<close> (lines 136 to 157): \<open>i\<close> is the index of the head of
  the remaining streams. Iteration \<open>i\<close> is the first to touch \<^verbatim>\<open>stream_ctx[i]\<close>, so the
  array grows by the entry of each iteration; \<open>ok i\<close> says whether the output stream for
  source stream \<open>i\<close> can be created and its parameters copied. \<open>None\<close> is the early
  \<^verbatim>\<open>return 1\<close> when it cannot.
\<close>

fun setup_streams :: "(nat \<Rightarrow> bool) \<Rightarrow> nat \<Rightarrow> AVStream list \<Rightarrow> trim_state \<Rightarrow> trim_state option" where
  "setup_streams ok i [] st = Some st"
| "setup_streams ok i (in_stream # rest) st =
     (let st1 = st\<lparr>stream_ctx := stream_ctx st @
                  [\<lparr>start_pts = AV_NOPTS_VALUE, start_dts = AV_NOPTS_VALUE, ctx_time_base = None\<rparr>]\<rparr>
      in if codec_type (codecpar in_stream) \<noteq> AVMEDIA_TYPE_AUDIO \<and>
            codec_type (codecpar in_stream) \<noteq> AVMEDIA_TYPE_VIDEO
         then setup_streams ok (Suc i) rest st1
         else
           let st2 = (if codec_type (codecpar in_stream) = AVMEDIA_TYPE_VIDEO
                      then st1\<lparr>video_stream_idx := int i\<rparr> else st1)
           in if \<not> ok i then None
              else setup_streams ok (Suc i) rest
                     (st2\<lparr>out_streams := out_streams st2 @ [new_out_stream in_stream],
                          stream_ctx := butlast (stream_ctx st2) @
                            [(last (stream_ctx st2))\<lparr>ctx_time_base := Some (time_base in_stream)\<rparr>]\<rparr>))"

section \<open>One iteration of the packet loop\<close>

text \<open>
  Subtraction and addition of \<^verbatim>\<open>int64_t\<close>: a result outside 64 bits is a signed overflow,
  which C leaves undefined (\<open>None\<close>).
\<close>

definition sub64 :: "int \<Rightarrow> int \<Rightarrow> int option" where
  "sub64 a b = (if in_int64 (a - b) then Some (a - b) else None)"

definition add64 :: "int \<Rightarrow> int \<Rightarrow> int option" where
  "add64 a b = (if in_int64 (a + b) then Some (a + b) else None)"

definition is_key :: "AVPacket \<Rightarrow> bool" where
  "is_key pkt \<longleftrightarrow> flags pkt AND AV_PKT_FLAG_KEY \<noteq> 0"

text \<open>Lines 213 to 216: the origin of a stream is stored while \<^verbatim>\<open>start_pts\<close> is unset.\<close>

definition origin_capture :: "StreamContext \<Rightarrow> AVPacket \<Rightarrow> StreamContext" where
  "origin_capture c pkt =
     (if start_pts c = AV_NOPTS_VALUE then c\<lparr>start_pts := pts pkt, start_dts := dts pkt\<rparr> else c)"

text \<open>Lines 218 to 220.\<close>

definition adjust_pts :: "StreamContext \<Rightarrow> AVPacket \<Rightarrow> AVPacket option" where
  "adjust_pts c pkt =
     (if pts pkt \<noteq> AV_NOPTS_VALUE
      then (case sub64 (pts pkt) (start_pts c) of
              None \<Rightarrow> None
            | Some v \<Rightarrow> Some (pkt\<lparr>pts := v\<rparr>))
      else Some pkt)"

text \<open>
  Lines 221 to 230; \<open>primary\<close> is \<^verbatim>\<open>stream_idx == video_stream_idx\<close>. The result is the
  packet and the new \<^verbatim>\<open>last_video_dts\<close>.
\<close>

definition adjust_dts :: "bool \<Rightarrow> int \<Rightarrow> StreamContext \<Rightarrow> AVPacket \<Rightarrow> (AVPacket \<times> int) option" where
  "adjust_dts primary lastv c pkt =
     (if dts pkt \<noteq> AV_NOPTS_VALUE
      then (case sub64 (dts pkt) (start_dts c) of
              None \<Rightarrow> None
            | Some d \<Rightarrow>
                if primary then
                  (if lastv \<noteq> AV_NOPTS_VALUE \<and> d \<le> lastv
                   then (case add64 lastv 1 of
                           None \<Rightarrow> None
                         | Some d' \<Rightarrow> Some (pkt\<lparr>dts := d'\<rparr>, d'))
                   else Some (pkt\<lparr>dts := d\<rparr>, d))
                else Some (pkt\<lparr>dts := d\<rparr>, lastv))
      else Some (pkt, lastv))"

text \<open>Lines 232 to 236.\<close>

definition repair_pts :: "bool \<Rightarrow> AVPacket \<Rightarrow> AVPacket" where
  "repair_pts primary pkt =
     (if primary \<and> pts pkt \<noteq> AV_NOPTS_VALUE \<and> dts pkt \<noteq> AV_NOPTS_VALUE
      then (if pts pkt < dts pkt then pkt\<lparr>pts := dts pkt\<rparr> else pkt)
      else pkt)"

datatype step =
    StepContinue trim_state
  | StepBreak
  | StepWrite trim_state AVPacket
  | StepUndefined undefined_behaviour

text \<open>
  Lines 213 to 239, for a packet that passed the window and the keyframe gate:
  \<open>k\<close> is its stream index, \<open>in_stream\<close> the source stream of that index.
\<close>

definition renormalize :: "env \<Rightarrow> AVStream \<Rightarrow> nat \<Rightarrow> trim_state \<Rightarrow> AVPacket \<Rightarrow> step" where
  "renormalize E in_stream k st pkt =
     (if \<not> k < length (stream_ctx st) then StepUndefined OutOfBounds
      else
        let primary = (int k = video_stream_idx st);
            c = origin_capture (stream_ctx st ! k) pkt;
            st1 = st\<lparr>stream_ctx := (stream_ctx st)[k := c]\<rparr>
        in case adjust_pts c pkt of
             None \<Rightarrow> StepUndefined SignedOverflow
           | Some pkt1 \<Rightarrow>
               (case adjust_dts primary (last_video_dts st1) c pkt1 of
                  None \<Rightarrow> StepUndefined SignedOverflow
                | Some (pkt2, lastv) \<Rightarrow>
                    let st2 = st1\<lparr>last_video_dts := lastv\<rparr>;
                        pkt3 = repair_pts primary pkt2
                    in if \<not> k < length (out_streams st2) then StepUndefined OutOfBounds
                       else StepWrite st2
                              (pkt3\<lparr>duration := av_rescale_q E (duration pkt3) (time_base in_stream)
                                                   (time_base (out_streams st2 ! k)),
                                    pos := - 1\<rparr>)))"

text \<open>Lines 182 to 239: the body of the loop up to the write.\<close>

definition relay_step :: "env \<Rightarrow> AVStream list \<Rightarrow> int \<Rightarrow> int \<Rightarrow> trim_state \<Rightarrow> AVPacket \<Rightarrow> step" where
  "relay_step E streams start_sec end_sec st pkt =
     (let stream_idx = stream_index pkt in
      if \<not> (0 \<le> stream_idx \<and> stream_idx < int (length streams)) then StepUndefined OutOfBounds
      else
        let in_stream = streams ! nat stream_idx in
        if codec_type (codecpar in_stream) \<noteq> AVMEDIA_TYPE_AUDIO \<and>
           codec_type (codecpar in_stream) \<noteq> AVMEDIA_TYPE_VIDEO
        then StepContinue st
        else
          let pts_seconds = (if pts pkt = AV_NOPTS_VALUE
                             then ts_seconds E (dts pkt) (time_base in_stream)
                             else ts_seconds E (pts pkt) (time_base in_stream))
          in if pts_seconds \<ge> of_int end_sec then StepBreak
             else if pts_seconds < of_int start_sec then StepContinue st
             else if stream_idx = video_stream_idx st \<and> \<not> got_video_keyframe st \<and> \<not> is_key pkt
               then StepContinue st
             else
               let st1 = (if stream_idx = video_stream_idx st \<and> \<not> got_video_keyframe st
                          then st\<lparr>got_video_keyframe := True\<rparr> else st)
               in renormalize E in_stream (nat stream_idx) st1 pkt)"

section \<open>The packet loop\<close>

text \<open>
  Lines 181 to 248 over the packets the input still holds; \<open>n\<close> counts the packets
  written so far. The result is the trace of the loop and whether it ran into
  undefined behaviour; otherwise it ends at the end of input, at the break of the
  window test or at a failed write.
\<close>

fun relay_loop :: "env \<Rightarrow> AVStream list \<Rightarrow> int \<Rightarrow> int \<Rightarrow> trim_state \<Rightarrow> nat \<Rightarrow> AVPacket list
    \<Rightarrow> event list \<times> undefined_behaviour option" where
  "relay_loop E streams start_sec end_sec st n [] = ([EvReadFrame None], None)"
| "relay_loop E streams start_sec end_sec st n (pkt # rest) =
     (case relay_step E streams start_sec end_sec st pkt of
        StepUndefined u \<Rightarrow> ([EvReadFrame (Some pkt)], Some u)
      | StepBreak \<Rightarrow> ([EvReadFrame (Some pkt)], None)
      | StepContinue st' \<Rightarrow>
          apfst ((#) (EvReadFrame (Some pkt))) (relay_loop E streams start_sec end_sec st' n rest)
      | StepWrite st' p \<Rightarrow>
          if write_frame_ok E n
          then apfst ((@) [EvReadFrame (Some pkt), EvWriteFrame p True])
                 (relay_loop E streams start_sec end_sec st' (Suc n) rest)
          else ([EvReadFrame (Some pkt), EvWriteFrame p False, EvStderr ''Error writing packet''],
                None))"

text \<open>The packets handed to \<^verbatim>\<open>av_interleaved_write_frame\<close>, in order.\<close>

fun emitted :: "event list \<Rightarrow> AVPacket list" where
  "emitted [] = []"
| "emitted (EvWriteFrame p ok # es) = p # emitted es"
| "emitted (e # es) = emitted es"

definition emitted_on :: "int \<Rightarrow> event list \<Rightarrow> AVPacket list" where
  "emitted_on idx es = filter (\<lambda>p. stream_index p = idx) (emitted es)"

text \<open>
  The written packets, each with the packet \<^verbatim>\<open>av_read_frame\<close> had delivered when it was
  written: \<open>cur\<close> is the packet read last.
\<close>

fun relayed_from :: "AVPacket option \<Rightarrow> event list \<Rightarrow> (AVPacket \<times> AVPacket) list" where
  "relayed_from cur [] = []"
| "relayed_from cur (EvReadFrame r # es) = relayed_from r es"
| "relayed_from cur (EvWriteFrame p ok # es) =
     (case cur of
        Some q \<Rightarrow> (q, p) # relayed_from cur es
      | None \<Rightarrow> relayed_from cur es)"
| "relayed_from cur (e # es) = relayed_from cur es"

definition relayed :: "event list \<Rightarrow> (AVPacket \<times> AVPacket) list" where
  "relayed es = relayed_from None es"

definition relayed_on :: "int \<Rightarrow> event list \<Rightarrow> (AVPacket \<times> AVPacket) list" where
  "relayed_on idx es = filter (\<lambda>(q, p). stream_index q = idx) (relayed es)"

section \<open>cleanup and Trim\<close>

text \<open>
  \<^verbatim>\<open>cleanup(in, out)\<close>: \<open>None\<close> is a null pointer; for the output context the argument
  says whether \<^verbatim>\<open>out->pb\<close> is open.
\<close>

definition cleanup :: "env \<Rightarrow> bool \<Rightarrow> bool option \<Rightarrow> event list" where
  "cleanup E inp out =
     (case out of
        None \<Rightarrow> []
      | Some pb \<Rightarrow> (if pb \<and> \<not> oformat_nofile E then [EvAvioClose] else []) @ [EvFreeContext])
     @ (if inp then [EvCloseInput] else [])"

text \<open>Lines 166 to 255: the seek, the loop, the trailer.\<close>

definition Trim_relay :: "env \<Rightarrow> string \<Rightarrow> string \<Rightarrow> AVStream list \<Rightarrow> int \<Rightarrow> int \<Rightarrow> trim_state
    \<Rightarrow> int outcome \<times> event list" where
  "Trim_relay E start_time end_time streams start_sec end_sec st =
     (if \<not> in_int64 (start_sec * AV_TIME_BASE) then (Undefined SignedOverflow, [])
      else if \<not> (0 \<le> video_stream_idx st \<and> video_stream_idx st < int (length streams))
      then (Undefined OutOfBounds, [])
      else
        let seek_target = av_rescale_q E (start_sec * AV_TIME_BASE) AV_TIME_BASE_Q
                            (time_base (streams ! nat (video_stream_idx st)))
        in if \<not> seek_ok E (video_stream_idx st) seek_target
           then (Returned 1,
                 [EvSeekFrame (video_stream_idx st) seek_target False, EvStderr ''Seek failed'']
                 @ cleanup E True (Some True))
           else
             (case relay_loop E streams start_sec end_sec
                     (st\<lparr>got_video_keyframe := False, last_video_dts := AV_NOPTS_VALUE\<rparr>) 0 (frames E) of
                (es, Some u) \<Rightarrow>
                  (Undefined u, EvSeekFrame (video_stream_idx st) seek_target True # es)
              | (es, None) \<Rightarrow>
                  (Returned 0,
                   EvSeekFrame (video_stream_idx st) seek_target True # es
                   @ [EvWriteTrailer] @ cleanup E True (Some True)
                   @ [EvStdout (''Successfully trimmed from '' @ start_time @ '' to '' @ end_time)])))"

text \<open>Lines 121 to 164: the output context, the stream contexts, the header.\<close>

definition Trim_setup :: "env \<Rightarrow> string \<Rightarrow> string \<Rightarrow> string \<Rightarrow> AVStream list \<Rightarrow> int \<Rightarrow> int
    \<Rightarrow> int outcome \<times> event list" where
  "Trim_setup E output start_time end_time streams start_sec end_sec =
     (if \<not> alloc_output_ok E output
      then (Returned 1, EvAllocOutput output False # cleanup E True None)
      else if \<not> malloc_ok E
      then (Returned 1,
            [EvAllocOutput output True, EvStderr ''Failed to allocate memory for stream context'']
            @ cleanup E True (Some False))
      else
        (case setup_streams (new_stream_ok E) 0 streams trim_init of
           None \<Rightarrow> (Returned 1, EvAllocOutput output True # cleanup E True (Some False))
         | Some st \<Rightarrow>
             if \<not> avio_open_ok E output
             then (Returned 1,
                   [EvAllocOutput output True, EvAvioOpen output False] @ cleanup E True (Some False))
             else if \<not> write_header_ok E
             then (Returned 1,
                   [EvAllocOutput output True, EvAvioOpen output True, EvWriteHeader False]
                   @ cleanup E True (Some True))
             else
               apsnd ((@) [EvAllocOutput output True, EvAvioOpen output True, EvWriteHeader True])
                 (Trim_relay E start_time end_time streams start_sec end_sec st)))"

text \<open>Lines 101 to 119 and the rest through the two parts above.\<close>

definition Trim :: "env \<Rightarrow> string \<Rightarrow> string \<Rightarrow> string \<Rightarrow> string \<Rightarrow> int outcome \<times> event list" where
  "Trim E input output start_time end_time =
     (case parse_time start_time of
        (Exited c, es) \<Rightarrow> (Exited c, es)
      | (Undefined u, es) \<Rightarrow> (Undefined u, es)
      | (Returned start_sec, es1) \<Rightarrow>
          (case parse_time end_time of
             (Exited c, es) \<Rightarrow> (Exited c, es1 @ es)
           | (Undefined u, es) \<Rightarrow> (Undefined u, es1 @ es)
           | (Returned end_sec, es2) \<Rightarrow>
               if start_sec \<ge> end_sec
               then (Returned 1, es1 @ es2 @ [EvStderr ''Error: start must be before end''])
               else
                 (case open_input E input of
                    OpenFailed \<Rightarrow>
                      (Returned 1, es1 @ es2 @ [EvOpenInput input False, EvStderr ''Could not open input''])
                  | ProbeFailed \<Rightarrow>
                      (Returned 1, es1 @ es2 @ [EvOpenInput input True, EvFindStreamInfo False,
                                     EvStderr ''Could not open input''])
                  | Opened streams \<Rightarrow>
                      apsnd ((@) (es1 @ es2 @ [EvOpenInput input True, EvFindStreamInfo True]))
                        (Trim_setup E output start_time end_time streams start_sec end_sec))))"

section \<open>Create\<close>

text \<open>
  The division and remainder of C truncate towards zero; \<^verbatim>\<open>%02d\<close> prints a sign for
  a negative number and pads with zeros to two characters; \<^verbatim>\<open>snprintf\<close> into a buffer
  of 16 bytes keeps at most 15 characters.
\<close>

definition c_div :: "int \<Rightarrow> int \<Rightarrow> int" where
  "c_div a b = sgn a * sgn b * (\<bar>a\<bar> div \<bar>b\<bar>)"

definition c_mod :: "int \<Rightarrow> int \<Rightarrow> int" where
  "c_mod a b = a - b * c_div a b"

fun dec_digits :: "nat \<Rightarrow> string" where
  "dec_digits n =
     (if n < 10 then [''0123456789'' ! n]
      else dec_digits (n div 10) @ [''0123456789'' ! (n mod 10)])"

definition fmt_02d :: "int \<Rightarrow> string" where
  "fmt_02d v =
     (let ds = dec_digits (nat \<bar>v\<bar>);
          sign = (if v < 0 then ''-'' else [])
      in sign @ replicate (2 - (length sign + length ds)) (CHR ''0'') @ ds)"

definition format_mm_ss :: "int \<Rightarrow> string" where
  "format_mm_ss t = take 15 (fmt_02d (c_div t 60) @ '':'' @ fmt_02d (c_mod t 60))"

text \<open>
  The values \<^verbatim>\<open>Create\<close> reads from the configuration of the filter: the two integers,
  which \<^verbatim>\<open>var_CreateGetIntegerCommand\<close> returns as \<^verbatim>\<open>int64_t\<close>, and the two paths (\<open>None\<close> for
  a null pointer).
\<close>

record config =
  cfg_start :: int
  cfg_end :: int
  cfg_input :: "string option"
  cfg_output :: "string option"

text \<open>
  Lines 53 and 54 store the 64-bit value in an \<^verbatim>\<open>int\<close>. The conversion of a value that the
  \<^verbatim>\<open>int\<close> cannot hold is defined by the implementation; the compilers that build VLC
  reduce it modulo \<open>2 ^ 32\<close>.
\<close>

definition narrow_int :: "int \<Rightarrow> int" where
  "narrow_int x = (x + 2 ^ 31) mod 2 ^ 32 - 2 ^ 31"

definition Create :: "env \<Rightarrow> config \<Rightarrow> int outcome \<times> event list" where
  "Create E cfg =
     (let start_time = narrow_int (cfg_start cfg); end_time = narrow_int (cfg_end cfg) in
      if start_time \<ge> end_time
      then (Returned VLC_EGENERIC, [EvMsgErr ''Invalid start and end times''])
      else
        (case (cfg_input cfg, cfg_output cfg) of
           (Some input, Some output) \<Rightarrow>
             (case Trim E input output (format_mm_ss start_time) (format_mm_ss end_time) of
                (Returned r, es) \<Rightarrow>
                  if r \<noteq> 0 then (Returned VLC_EGENERIC, es @ [EvMsgErr ''Failed to trim video''])
                  else (Returned VLC_SUCCESS, es @ [EvMsgInfo ''Video trimmed successfully''])
              | (Exited c, es) \<Rightarrow> (Exited c, es)
              | (Undefined u, es) \<Rightarrow> (Undefined u, es))
         | _ \<Rightarrow> (Returned VLC_EGENERIC, [EvMsgErr ''Input or output file path not provided''])))"

section \<open>Notions used in the statements\<close>

text \<open>The events after the loop: the trailer, \<^verbatim>\<open>cleanup\<close>, the message of success.\<close>

definition finish :: "env \<Rightarrow> string \<Rightarrow> string \<Rightarrow> event list" where
  "finish E start_time end_time = [EvWriteTrailer] @ cleanup E True (Some True)
       @ [EvStdout (''Successfully trimmed from '' @ start_time @ '' to '' @ end_time)]"

text \<open>
  The primary stream of a run: the value of \<^verbatim>\<open>video_stream_idx\<close> when the loop over the
  streams of the opened input has ended.
\<close>

definition primary_stream :: "env \<Rightarrow> string \<Rightarrow> int option" where
  "primary_stream E inp =
     (case open_input E inp of
        Opened streams \<Rightarrow>
          map_option video_stream_idx (setup_streams (new_stream_ok E) 0 streams trim_init)
      | _ \<Rightarrow> None)"

definition is_video :: "AVStream \<Rightarrow> bool" where
  "is_video s \<longleftrightarrow> codec_type (codecpar s) = AVMEDIA_TYPE_VIDEO"

text \<open>The decode time stamps of the packets that carry one.\<close>

definition defined_dts :: "AVPacket list \<Rightarrow> int list" where
  "defined_dts ws = map dts (filter (\<lambda>p. dts p \<noteq> AV_NOPTS_VALUE) ws)"

text \<open>The output streams of a run: \<^verbatim>\<open>out->streams\<close> when the loop over the streams has ended.\<close>

definition output_streams :: "env \<Rightarrow> string \<Rightarrow> AVStream list option" where
  "output_streams E inp =
     (case open_input E inp of
        Opened streams \<Rightarrow>
          map_option out_streams (setup_streams (new_stream_ok E) 0 streams trim_init)
      | _ \<Rightarrow> None)"

text \<open>
  The copied streams come first: behind the first stream that is neither audio nor
  video there is no audio or video stream.
\<close>

definition copied_prefix :: "AVStream list \<Rightarrow> bool" where
  "copied_prefix streams \<longleftrightarrow> list_all (\<lambda>s. \<not> copied_kind s) (dropWhile copied_kind streams)"

text \<open>
  A packet \<open>q\<close> of the source and the packet \<open>p\<close> written for it: \<open>p\<close> keeps the stream index
  of \<open>q\<close>, which is the index of a copied source stream and of an output stream, and the
  duration of \<open>p\<close> is rescaled between the time bases of the two streams of that index.
\<close>

definition routed :: "env \<Rightarrow> AVStream list \<Rightarrow> AVStream list \<Rightarrow> AVPacket \<times> AVPacket \<Rightarrow> bool" where
  "routed E streams outs qp =
     (case qp of (q, p) \<Rightarrow>
        stream_index p = stream_index q
      \<and> 0 \<le> stream_index q \<and> stream_index q < int (length streams)
      \<and> copied_kind (streams ! nat (stream_index q))
      \<and> nat (stream_index q) < length outs
      \<and> duration p = av_rescale_q E (duration q) (time_base (streams ! nat (stream_index q)))
                        (time_base (outs ! nat (stream_index q))))"

text \<open>
  The first written packet of a stream: a defined time stamp has become 0, an
  undefined one is still undefined.
\<close>

definition first_at_zero :: "AVPacket \<times> AVPacket \<Rightarrow> bool" where
  "first_at_zero qp =
     (case qp of (q, p) \<Rightarrow>
        pts p = (if pts q = AV_NOPTS_VALUE then AV_NOPTS_VALUE else 0)
      \<and> dts p = (if dts q = AV_NOPTS_VALUE then AV_NOPTS_VALUE else 0))"

text \<open>
  A later packet of the stream, for the origin \<open>(origin_pts, origin_dts)\<close>: a defined
  time stamp has had the origin subtracted; on the primary stream the two repairs can
  only have raised it.
\<close>

definition origin_applied :: "bool \<Rightarrow> int \<Rightarrow> int \<Rightarrow> AVPacket \<times> AVPacket \<Rightarrow> bool" where
  "origin_applied primary origin_pts origin_dts qp =
     (case qp of (q, p) \<Rightarrow>
        (pts q \<noteq> AV_NOPTS_VALUE \<longrightarrow>
           pts q - origin_pts \<le> pts p \<and> (\<not> primary \<longrightarrow> pts p = pts q - origin_pts))
      \<and> (origin_dts \<noteq> AV_NOPTS_VALUE \<longrightarrow> dts q \<noteq> AV_NOPTS_VALUE \<longrightarrow>
           dts q - origin_dts \<le> dts p \<and> (\<not> primary \<longrightarrow> dts p = dts q - origin_dts)))"

text \<open>
  The packet passes the two tests of the window (lines 191 to 203) for the bounds
  \<open>start_sec\<close> and \<open>end_sec\<close>.
\<close>

definition in_window :: "env \<Rightarrow> AVStream list \<Rightarrow> int \<Rightarrow> int \<Rightarrow> AVPacket \<Rightarrow> bool" where
  "in_window E streams start_sec end_sec q \<longleftrightarrow>
     (let in_stream = streams ! nat (stream_index q);
          pts_seconds = (if pts q = AV_NOPTS_VALUE
                         then ts_seconds E (dts q) (time_base in_stream)
                         else ts_seconds E (pts q) (time_base in_stream))
      in \<not> pts_seconds \<ge> of_int end_sec \<and> \<not> pts_seconds < of_int start_sec)"

text \<open>The number a run of decimal digits denotes.\<close>

definition decimal :: "string \<Rightarrow> int" where
  "decimal ds = foldl (\<lambda>acc c. acc * 10 + digit_val c) 0 ds"

section \<open>Sample inputs\<close>

definition sample_video :: AVStream where
  "sample_video = \<lparr>codecpar = \<lparr>codec_type = AVMEDIA_TYPE_VIDEO, codec_id = 27\<rparr>,
     time_base = \<lparr>num = 1, den = 1\<rparr>\<rparr>"

definition sample_audio :: AVStream where
  "sample_audio = \<lparr>codecpar = \<lparr>codec_type = AVMEDIA_TYPE_AUDIO, codec_id = 86018\<rparr>,
     time_base = \<lparr>num = 1, den = 1\<rparr>\<rparr>"

definition sample_subtitle :: AVStream where
  "sample_subtitle = \<lparr>codecpar = \<lparr>codec_type = AVMEDIA_TYPE_SUBTITLE, codec_id = 94213\<rparr>,
     time_base = \<lparr>num = 1, den = 1\<rparr>\<rparr>"

text \<open>
  An environment in which every library call succeeds, on a source with the streams
  \<open>ss\<close> that delivers the packets \<open>ps\<close>; and one whose second packet write fails.
\<close>

definition sample_env :: "AVStream list \<Rightarrow> AVPacket list \<Rightarrow> env" where
  "sample_env ss ps =
     \<lparr>open_input = (\<lambda>path. Opened ss), alloc_output_ok = (\<lambda>path. True), malloc_ok = True,
      new_stream_ok = (\<lambda>i. True), avio_open_ok = (\<lambda>path. True), write_header_ok = True,
      oformat_nofile = False, av_rescale_q = (\<lambda>a bq cq. a), ts_seconds = exact_seconds,
      seek_ok = (\<lambda>idx ts. True), frames = ps, write_frame_ok = (\<lambda>n. True)\<rparr>"

definition failing_env :: "AVStream list \<Rightarrow> AVPacket list \<Rightarrow> env" where
  "failing_env ss ps = (sample_env ss ps)\<lparr>write_frame_ok := (\<lambda>n. n < 1)\<rparr>"

definition packet :: "int \<Rightarrow> int \<Rightarrow> int \<Rightarrow> int \<Rightarrow> AVPacket" where
  "packet idx p d f = \<lparr>stream_index = idx, pts = p, dts = d, duration = 1, flags = f, pos = 0\<rparr>"

text \<open>
  A run over a video and an audio stream: a video packet before the first keyframe,
  the keyframe, two audio packets, two more video packets whose second one goes
  back in decode time, and a packet behind the end of the window.
\<close>

definition sample_packets :: "AVPacket list" where
  "sample_packets =
     [packet 0 5 5 0, packet 0 6 6 1, packet 1 10 5 0, packet 1 12 11 0,
      packet 0 8 7 0, packet 0 7 6 0, packet 0 100 100 0]"

definition sample_run :: env where
  "sample_run = sample_env [sample_video, sample_audio] sample_packets"

text \<open>
  A source with two video streams: a packet of the first one that is no keyframe, then
  a keyframe of the second one.
\<close>

definition two_video_run :: env where
  "two_video_run = sample_env [sample_video, sample_audio, sample_video]
     [packet 0 0 0 0, packet 2 1 1 1]"

text \<open>An audio stream whose packets carry a decode time stamp only.\<close>

definition undefined_pts_run :: env where
  "undefined_pts_run = sample_env [sample_video, sample_audio]
     [packet 1 AV_NOPTS_VALUE 10 0, packet 1 AV_NOPTS_VALUE 20 0]"

section \<open>Facts about parse_time\<close>

lemmas scan_defs = parse_time_def sscanf_d_colon_d_def scan_d_def isspace_def isdigit_def
  digit_val_def in_int32_def

lemma parse_time_Returned_events: "parse_time str = (Returned v, es) \<Longrightarrow> es = []"
  by (auto simp: parse_time_def split: scanned.splits if_splits)

lemma parse_time_00_30: "parse_time ''00:30'' = (Returned 30, [])"
  by (simp add: scan_defs)

lemma parse_time_00_10: "parse_time ''00:10'' = (Returned 10, [])"
  by (simp add: scan_defs)

lemma parse_time_00_00: "parse_time ''00:00'' = (Returned 0, [])"
  by (simp add: scan_defs)

lemma parse_time_01_00: "parse_time ''01:00'' = (Returned 60, [])"
  by (simp add: scan_defs)

lemma isdigit_not_isspace: "isdigit c \<Longrightarrow> \<not> isspace c"
  by (auto simp: isdigit_def isspace_def)

lemma isdigit_not_sign: "isdigit c \<Longrightarrow> c \<noteq> CHR ''-'' \<and> c \<noteq> CHR ''+'' \<and> c \<noteq> CHR '':''"
  by (auto simp: isdigit_def)

lemma digit_val_nonneg: "isdigit c \<Longrightarrow> 0 \<le> digit_val c"
  by (auto simp: isdigit_def digit_val_def)

lemma scan_digits_run:
  assumes "list_all isdigit ds" and "rest = [] \<or> \<not> isdigit (hd rest)"
  shows "scan_digits acc (ds @ rest) = (foldl (\<lambda>acc c. acc * 10 + digit_val c) acc ds, rest)"
  using assms
proof (induction ds arbitrary: acc)
  case Nil
  then show ?case by (cases rest) auto
next
  case (Cons d ds)
  then show ?case by simp
qed

lemma foldl_digits_nonneg:
  "list_all isdigit ds \<Longrightarrow> 0 \<le> acc \<Longrightarrow> 0 \<le> foldl (\<lambda>acc c. acc * 10 + digit_val c) acc ds"
proof (induction ds arbitrary: acc)
  case (Cons d ds)
  then have "0 \<le> acc * 10 + digit_val d" by (simp add: digit_val_nonneg)
  with Cons show ?case by simp
qed simp

lemma decimal_nonneg: "list_all isdigit ds \<Longrightarrow> 0 \<le> decimal ds"
  by (simp add: decimal_def foldl_digits_nonneg)

lemma scan_d_digits:
  assumes "ds \<noteq> []" and "list_all isdigit ds" and "rest = [] \<or> \<not> isdigit (hd rest)"
  shows "scan_d (ds @ rest) = Some (decimal ds, rest)"
proof -
  from assms(1) obtain d ds' where ds: "ds = d # ds'" by (cases ds) auto
  with assms(2) have d: "isdigit d" by simp
  have "dropWhile isspace (ds @ rest) = ds @ rest"
    using ds d by (simp add: isdigit_not_isspace)
  moreover have "scan_signed (ds @ rest) = scan_unsigned (ds @ rest)"
    using ds d isdigit_not_sign [OF d] by simp
  moreover have "scan_unsigned (ds @ rest) = Some (scan_digits 0 (ds @ rest))"
    using ds d by simp
  ultimately show ?thesis
    using scan_digits_run [OF assms(2,3), of 0] by (simp add: scan_d_def decimal_def)
qed

lemma scan_digits_rest: "scan_digits acc s = (v, rest) \<Longrightarrow> set rest \<subseteq> set s"
  by (induction s arbitrary: acc) (auto split: if_splits)

lemma scan_unsigned_rest: "scan_unsigned s = Some (v, rest) \<Longrightarrow> set rest \<subseteq> set s"
  by (cases s) (auto split: if_splits dest: scan_digits_rest)

lemma scan_signed_rest: "scan_signed s = Some (v, rest) \<Longrightarrow> set rest \<subseteq> set s"
  by (cases s) (auto simp del: scan_unsigned.simps split: if_splits option.splits
                    dest!: scan_unsigned_rest)

lemma scan_d_rest: "scan_d s = Some (v, rest) \<Longrightarrow> set rest \<subseteq> set s"
  unfolding scan_d_def using set_dropWhileD by (fastforce dest!: scan_signed_rest)

lemma no_colon_no_second_field:
  assumes "CHR '':'' \<notin> set str"
  shows "\<forall>m s. sscanf_d_colon_d str \<noteq> Scan2 m s"
  using assms
  by (auto simp: sscanf_d_colon_d_def split: if_splits option.splits list.splits
           dest!: scan_d_rest)

section \<open>One step of the loop\<close>

lemma adjust_pts_SomeD:
  assumes "adjust_pts c pkt = Some pkt1"
  shows "pkt1 = pkt\<lparr>pts := pts pkt1\<rparr>"
    and "pts pkt = AV_NOPTS_VALUE \<Longrightarrow> pts pkt1 = AV_NOPTS_VALUE"
    and "pts pkt \<noteq> AV_NOPTS_VALUE \<Longrightarrow> pts pkt1 = pts pkt - start_pts c"
  using assms by (auto simp: adjust_pts_def sub64_def split: if_splits)

lemma adjust_dts_SomeD:
  assumes "adjust_dts primary lastv c pkt = Some (pkt2, lastv')"
  shows "pkt2 = pkt\<lparr>dts := dts pkt2\<rparr>"
    and "dts pkt = AV_NOPTS_VALUE \<Longrightarrow> dts pkt2 = AV_NOPTS_VALUE \<and> lastv' = lastv"
    and "\<not> primary \<Longrightarrow> lastv' = lastv"
    and "\<not> primary \<Longrightarrow> dts pkt \<noteq> AV_NOPTS_VALUE \<Longrightarrow> dts pkt2 = dts pkt - start_dts c"
    and "primary \<Longrightarrow> dts pkt \<noteq> AV_NOPTS_VALUE \<Longrightarrow>
           lastv' = dts pkt2 \<and> in_int64 (dts pkt2)
           \<and> (lastv \<noteq> AV_NOPTS_VALUE \<longrightarrow> lastv < dts pkt2)
           \<and> (lastv = AV_NOPTS_VALUE \<longrightarrow> dts pkt2 = dts pkt - start_dts c)"
  using assms by (auto simp: adjust_dts_def sub64_def add64_def split: if_splits)

lemma repair_pts_fields:
  "stream_index (repair_pts primary pkt) = stream_index pkt"
  "dts (repair_pts primary pkt) = dts pkt"
  "flags (repair_pts primary pkt) = flags pkt"
  "duration (repair_pts primary pkt) = duration pkt"
  "\<not> primary \<Longrightarrow> repair_pts primary pkt = pkt"
  "pts pkt = AV_NOPTS_VALUE \<Longrightarrow> repair_pts primary pkt = pkt"
  "dts pkt = AV_NOPTS_VALUE \<Longrightarrow> repair_pts primary pkt = pkt"
  "dts pkt \<le> pts pkt \<Longrightarrow> repair_pts primary pkt = pkt"
  by (simp_all add: repair_pts_def)

lemma repair_pts_ge:
  "primary \<Longrightarrow> pts (repair_pts primary pkt) \<noteq> AV_NOPTS_VALUE \<Longrightarrow> dts pkt \<noteq> AV_NOPTS_VALUE
     \<Longrightarrow> dts pkt \<le> pts (repair_pts primary pkt)"
  by (auto simp: repair_pts_def split: if_splits)

lemma relay_step_ContinueD:
  "relay_step E streams a b st pkt = StepContinue st' \<Longrightarrow> st' = st"
  by (auto simp: relay_step_def renormalize_def Let_def split: if_splits option.splits prod.splits)

lemma renormalize_WriteD:
  assumes "renormalize E in_stream k st pkt = StepWrite st' p"
  shows "\<exists>pkt1 pkt2 lastv.
           k < length (stream_ctx st) \<and> k < length (out_streams st)
         \<and> adjust_pts (origin_capture (stream_ctx st ! k) pkt) pkt = Some pkt1
         \<and> adjust_dts (int k = video_stream_idx st) (last_video_dts st)
              (origin_capture (stream_ctx st ! k) pkt) pkt1 = Some (pkt2, lastv)
         \<and> st' = st\<lparr>stream_ctx := (stream_ctx st)[k := origin_capture (stream_ctx st ! k) pkt],
                     last_video_dts := lastv\<rparr>
         \<and> p = (repair_pts (int k = video_stream_idx st) pkt2)
                 \<lparr>duration := av_rescale_q E (duration (repair_pts (int k = video_stream_idx st) pkt2))
                                (time_base in_stream) (time_base (out_streams st ! k)),
                  pos := - 1\<rparr>"
  using assms
  by (auto simp: renormalize_def Let_def split: if_splits option.splits prod.splits)

lemma got_update_id: "got_video_keyframe st \<Longrightarrow> st\<lparr>got_video_keyframe := True\<rparr> = st"
  by simp

lemma relay_step_WriteD:
  assumes "relay_step E streams a b st pkt = StepWrite st' p"
  shows "\<exists>st1. 0 \<le> stream_index pkt \<and> stream_index pkt < int (length streams)
         \<and> copied_kind (streams ! nat (stream_index pkt))
         \<and> (stream_index pkt = video_stream_idx st \<and> \<not> got_video_keyframe st \<longrightarrow> is_key pkt)
         \<and> st1 = st\<lparr>got_video_keyframe := (got_video_keyframe st \<or> stream_index pkt = video_stream_idx st)\<rparr>
         \<and> renormalize E (streams ! nat (stream_index pkt)) (nat (stream_index pkt)) st1 pkt
             = StepWrite st' p"
  using assms
  by (auto simp: relay_step_def Let_def copied_kind_def got_update_id split: if_splits)

text \<open>What a step that writes does to the state and to the packet.\<close>

lemma relay_step_Write_state:
  assumes "relay_step E streams a b st pkt = StepWrite st' p"
  shows "video_stream_idx st' = video_stream_idx st"
    and "out_streams st' = out_streams st"
    and "length (stream_ctx st') = length (stream_ctx st)"
    and "got_video_keyframe st' = (got_video_keyframe st \<or> stream_index pkt = video_stream_idx st)"
    and "stream_index p = stream_index pkt"
    and "flags p = flags pkt"
    and "0 \<le> stream_index pkt" and "stream_index pkt < int (length streams)"
    and "nat (stream_index pkt) < length (out_streams st)"
    and "nat (stream_index pkt) < length (stream_ctx st)"
    and "copied_kind (streams ! nat (stream_index pkt))"
    and "stream_ctx st' = (stream_ctx st)[nat (stream_index pkt) :=
            origin_capture (stream_ctx st ! nat (stream_index pkt)) pkt]"
    and "duration p = av_rescale_q E (duration pkt) (time_base (streams ! nat (stream_index pkt)))
                        (time_base (out_streams st ! nat (stream_index pkt)))"
proof -
  from relay_step_WriteD [OF assms] obtain st1 where
    s: "0 \<le> stream_index pkt" "stream_index pkt < int (length streams)"
       "copied_kind (streams ! nat (stream_index pkt))"
       "st1 = st\<lparr>got_video_keyframe := (got_video_keyframe st \<or> stream_index pkt = video_stream_idx st)\<rparr>"
       "renormalize E (streams ! nat (stream_index pkt)) (nat (stream_index pkt)) st1 pkt = StepWrite st' p"
    by blast
  from renormalize_WriteD [OF s(5)] obtain pkt1 pkt2 lastv where
    r: "nat (stream_index pkt) < length (stream_ctx st1)" "nat (stream_index pkt) < length (out_streams st1)"
       "adjust_pts (origin_capture (stream_ctx st1 ! nat (stream_index pkt)) pkt) pkt = Some pkt1"
       "adjust_dts (int (nat (stream_index pkt)) = video_stream_idx st1) (last_video_dts st1)
              (origin_capture (stream_ctx st1 ! nat (stream_index pkt)) pkt) pkt1 = Some (pkt2, lastv)"
       "st' = st1\<lparr>stream_ctx := (stream_ctx st1)[nat (stream_index pkt) :=
                 origin_capture (stream_ctx st1 ! nat (stream_index pkt)) pkt],
                     last_video_dts := lastv\<rparr>"
       "p = (repair_pts (int (nat (stream_index pkt)) = video_stream_idx st1) pkt2)
                 \<lparr>duration := av_rescale_q E (duration (repair_pts (int (nat (stream_index pkt)) = video_stream_idx st1) pkt2))
                                (time_base (streams ! nat (stream_index pkt)))
                                (time_base (out_streams st1 ! nat (stream_index pkt))),
                  pos := - 1\<rparr>"
    by blast
  have f1: "stream_index pkt1 = stream_index pkt" "flags pkt1 = flags pkt" "duration pkt1 = duration pkt"
    using adjust_pts_SomeD(1) [OF r(3)]
    by (metis AVPacket.select_convs AVPacket.surjective AVPacket.update_convs(2))+
  have f2: "stream_index pkt2 = stream_index pkt1" "flags pkt2 = flags pkt1" "duration pkt2 = duration pkt1"
    using adjust_dts_SomeD(1) [OF r(4)]
    by (metis AVPacket.select_convs AVPacket.surjective AVPacket.update_convs(3))+
  show "video_stream_idx st' = video_stream_idx st" using r(5) s(4) by simp
  show "out_streams st' = out_streams st" using r(5) s(4) by simp
  show "length (stream_ctx st') = length (stream_ctx st)" using r(5) s(4) by simp
  show "got_video_keyframe st' = (got_video_keyframe st \<or> stream_index pkt = video_stream_idx st)"
    using r(5) s(4) by simp
  show "stream_index p = stream_index pkt" using r(6) f1 f2 by (simp add: repair_pts_fields)
  show "flags p = flags pkt" using r(6) f1 f2 by (simp add: repair_pts_fields)
  show "0 \<le> stream_index pkt" "stream_index pkt < int (length streams)" by (rule s)+
  show "nat (stream_index pkt) < length (out_streams st)" using r(2) s(4) by simp
  show "nat (stream_index pkt) < length (stream_ctx st)" using r(1) s(4) by simp
  show "copied_kind (streams ! nat (stream_index pkt))" by (rule s)
  show "stream_ctx st' = (stream_ctx st)[nat (stream_index pkt) :=
            origin_capture (stream_ctx st ! nat (stream_index pkt)) pkt]"
    using r(5) s(4) by simp
  show "duration p = av_rescale_q E (duration pkt) (time_base (streams ! nat (stream_index pkt)))
                        (time_base (out_streams st ! nat (stream_index pkt)))"
    using r(6) s(4) f1 f2 by (simp add: repair_pts_fields)
qed

section \<open>The loop\<close>

lemma emitted_append: "emitted (xs @ ys) = emitted xs @ emitted ys"
proof (induction xs)
  case (Cons e es)
  then show ?case by (cases e) simp_all
qed simp

lemma emitted_cleanup: "emitted (cleanup E inp out) = []"
  by (simp add: cleanup_def emitted_append split: option.splits)

text \<open>An invariant rule for the packet loop.\<close>

lemma relay_loop_rule:
  assumes inv: "I st"
    and keep: "\<And>st pkt st' p. I st \<Longrightarrow> relay_step E streams a b st pkt = StepWrite st' p \<Longrightarrow> I st'"
    and nil: "\<And>st. I st \<Longrightarrow> R st []"
    and cons: "\<And>st pkt st' p ws. I st \<Longrightarrow> relay_step E streams a b st pkt = StepWrite st' p
                 \<Longrightarrow> R st' ws \<Longrightarrow> R st (p # ws)"
  shows "R st (emitted (fst (relay_loop E streams a b st n ps)))"
  using inv
proof (induction ps arbitrary: st n)
  case Nil
  then show ?case by (simp add: nil)
next
  case (Cons pkt rest)
  show ?case
  proof (cases "relay_step E streams a b st pkt")
    case (StepContinue st')
    then have "st' = st" by (rule relay_step_ContinueD)
    with StepContinue Cons.IH [OF Cons.prems, of n] show ?thesis by simp
  next
    case StepBreak
    then show ?thesis by (simp add: nil [OF Cons.prems])
  next
    case (StepWrite st' p)
    have i': "I st'" by (rule keep [OF Cons.prems StepWrite])
    show ?thesis
    proof (cases "write_frame_ok E n")
      case True
      with StepWrite cons [OF Cons.prems StepWrite Cons.IH [OF i', of "Suc n"]]
      show ?thesis by simp
    next
      case False
      with StepWrite cons [OF Cons.prems StepWrite nil [OF i']]
      show ?thesis by simp
    qed
  next
    case (StepUndefined u)
    then show ?thesis by (simp add: nil [OF Cons.prems])
  qed
qed

lemma step_pts_ge_dts:
  assumes "relay_step E streams a b st pkt = StepWrite st' p"
    and "stream_index p = video_stream_idx st"
    and "pts p \<noteq> AV_NOPTS_VALUE" and "dts p \<noteq> AV_NOPTS_VALUE"
  shows "dts p \<le> pts p"
proof -
  from relay_step_WriteD [OF assms(1)] obtain st1 where
    s: "0 \<le> stream_index pkt"
       "st1 = st\<lparr>got_video_keyframe := (got_video_keyframe st \<or> stream_index pkt = video_stream_idx st)\<rparr>"
       "renormalize E (streams ! nat (stream_index pkt)) (nat (stream_index pkt)) st1 pkt = StepWrite st' p"
    by blast
  from renormalize_WriteD [OF s(3)] obtain pkt2 where
    r: "p = (repair_pts (int (nat (stream_index pkt)) = video_stream_idx st1) pkt2)
                 \<lparr>duration := av_rescale_q E (duration (repair_pts (int (nat (stream_index pkt)) = video_stream_idx st1) pkt2))
                                (time_base (streams ! nat (stream_index pkt)))
                                (time_base (out_streams st1 ! nat (stream_index pkt))),
                  pos := - 1\<rparr>"
    by blast
  have prim: "int (nat (stream_index pkt)) = video_stream_idx st1"
    using relay_step_Write_state(5) [OF assms(1)] assms(2) s(1,2) by simp
  have "pts p = pts (repair_pts True pkt2)" "dts p = dts pkt2"
    using r prim by (simp_all add: repair_pts_fields)
  with assms(3,4) repair_pts_ge [of True pkt2] show ?thesis by simp
qed

lemma loop_pts_ge_dts:
  "\<forall>p\<in>set (emitted_on (video_stream_idx st) (fst (relay_loop E streams a b st n ps))).
     pts p \<noteq> AV_NOPTS_VALUE \<longrightarrow> dts p \<noteq> AV_NOPTS_VALUE \<longrightarrow> dts p \<le> pts p"
  unfolding emitted_on_def
  by (rule relay_loop_rule [where I = "\<lambda>st. True" and
        R = "\<lambda>st ws. \<forall>p\<in>set (filter (\<lambda>p. stream_index p = video_stream_idx st) ws).
               pts p \<noteq> AV_NOPTS_VALUE \<longrightarrow> dts p \<noteq> AV_NOPTS_VALUE \<longrightarrow> dts p \<le> pts p"])
     (auto simp: relay_step_Write_state(1) dest: step_pts_ge_dts)

lemma step_last_video_dts:
  assumes "relay_step E streams a b st pkt = StepWrite st' p"
    and "AV_NOPTS_VALUE \<le> last_video_dts st"
  shows "AV_NOPTS_VALUE \<le> last_video_dts st'"
    and "stream_index p = video_stream_idx st \<Longrightarrow> dts p \<noteq> AV_NOPTS_VALUE \<Longrightarrow>
           last_video_dts st' = dts p \<and> (last_video_dts st \<noteq> AV_NOPTS_VALUE \<longrightarrow> last_video_dts st < dts p)"
    and "\<not> (stream_index p = video_stream_idx st \<and> dts p \<noteq> AV_NOPTS_VALUE) \<Longrightarrow>
           last_video_dts st' = last_video_dts st"
proof -
  let ?k = "nat (stream_index pkt)"
  from relay_step_WriteD [OF assms(1)] obtain st1 where
    s: "0 \<le> stream_index pkt"
       "st1 = st\<lparr>got_video_keyframe := (got_video_keyframe st \<or> stream_index pkt = video_stream_idx st)\<rparr>"
       "renormalize E (streams ! ?k) ?k st1 pkt = StepWrite st' p"
    by blast
  let ?prim = "int ?k = video_stream_idx st1"
  let ?c = "origin_capture (stream_ctx st1 ! ?k) pkt"
  from renormalize_WriteD [OF s(3)] obtain pkt1 pkt2 lastv where
    r: "adjust_pts ?c pkt = Some pkt1"
       "adjust_dts ?prim (last_video_dts st1) ?c pkt1 = Some (pkt2, lastv)"
       "st' = st1\<lparr>stream_ctx := (stream_ctx st1)[?k := ?c], last_video_dts := lastv\<rparr>"
       "p = (repair_pts ?prim pkt2)
                 \<lparr>duration := av_rescale_q E (duration (repair_pts ?prim pkt2))
                                (time_base (streams ! ?k)) (time_base (out_streams st1 ! ?k)),
                  pos := - 1\<rparr>"
    by blast
  have prim: "?prim \<longleftrightarrow> stream_index p = video_stream_idx st"
    using relay_step_Write_state(5) [OF assms(1)] s(1,2) by simp
  have l: "last_video_dts st' = lastv" "last_video_dts st1 = last_video_dts st"
    using r(3) s(2) by simp_all
  have d: "dts p = dts pkt2" using r(4) by (simp add: repair_pts_fields)
  have d1: "dts pkt1 = dts pkt"
    using adjust_pts_SomeD(1) [OF r(1)]
    by (metis AVPacket.select_convs(3) AVPacket.surjective AVPacket.update_convs(2))
  note a = adjust_dts_SomeD [OF r(2)]
  have nmin: "in_int64 x \<Longrightarrow> AV_NOPTS_VALUE \<le> x" for x
    by (simp add: in_int64_def AV_NOPTS_VALUE_def)
  show "AV_NOPTS_VALUE \<le> last_video_dts st'"
  proof (cases "?prim \<and> dts pkt1 \<noteq> AV_NOPTS_VALUE")
    case True
    with a(5) l nmin show ?thesis by auto
  next
    case False
    with a(2,3) l assms(2) show ?thesis by auto
  qed
  show "last_video_dts st' = dts p \<and> (last_video_dts st \<noteq> AV_NOPTS_VALUE \<longrightarrow> last_video_dts st < dts p)"
    if "stream_index p = video_stream_idx st" "dts p \<noteq> AV_NOPTS_VALUE"
  proof -
    have "dts pkt1 \<noteq> AV_NOPTS_VALUE" using a(2) that(2) d by auto
    with a(5) prim that(1) l d show ?thesis by auto
  qed
  show "last_video_dts st' = last_video_dts st"
    if "\<not> (stream_index p = video_stream_idx st \<and> dts p \<noteq> AV_NOPTS_VALUE)"
  proof (cases "?prim")
    case False
    with a(3) l show ?thesis by simp
  next
    case True
    with that prim d have e: "dts pkt2 = AV_NOPTS_VALUE" by simp
    show ?thesis
    proof (cases "dts pkt1 = AV_NOPTS_VALUE")
      case True
      with a(2) l show ?thesis by simp
    next
      case False
      with a(5) \<open>?prim\<close> e l assms(2) show ?thesis by auto
    qed
  qed
qed

lemma loop_dts_increasing:
  assumes "AV_NOPTS_VALUE \<le> last_video_dts st"
  shows "sorted_wrt (<) (defined_dts (emitted_on (video_stream_idx st)
           (fst (relay_loop E streams a b st n ps))))"
proof -
  let ?R = "\<lambda>st ws. sorted_wrt (<) (defined_dts (filter (\<lambda>p. stream_index p = video_stream_idx st) ws))
     \<and> (last_video_dts st \<noteq> AV_NOPTS_VALUE \<longrightarrow>
          (\<forall>d\<in>set (defined_dts (filter (\<lambda>p. stream_index p = video_stream_idx st) ws)). last_video_dts st < d))"
  have "?R st (emitted (fst (relay_loop E streams a b st n ps)))"
  proof (rule relay_loop_rule [where I = "\<lambda>st. AV_NOPTS_VALUE \<le> last_video_dts st" and R = ?R])
    show "AV_NOPTS_VALUE \<le> last_video_dts st" by (rule assms)
  next
    fix st pkt st' p
    assume "AV_NOPTS_VALUE \<le> last_video_dts st" "relay_step E streams a b st pkt = StepWrite st' p"
    then show "AV_NOPTS_VALUE \<le> last_video_dts st'" by (rule step_last_video_dts(1) [rotated])
  next
    fix st :: trim_state
    show "?R st []" by (simp add: defined_dts_def)
  next
    fix st pkt st' p ws
    assume i: "AV_NOPTS_VALUE \<le> last_video_dts st"
      and w: "relay_step E streams a b st pkt = StepWrite st' p"
      and r: "?R st' ws"
    have v: "video_stream_idx st' = video_stream_idx st" by (rule relay_step_Write_state(1) [OF w])
    show "?R st (p # ws)"
    proof (cases "stream_index p = video_stream_idx st \<and> dts p \<noteq> AV_NOPTS_VALUE")
      case True
      with step_last_video_dts(2) [OF w i] have
        l: "last_video_dts st' = dts p" "last_video_dts st \<noteq> AV_NOPTS_VALUE \<longrightarrow> last_video_dts st < dts p"
        by auto
      with True r v show ?thesis by (auto simp: defined_dts_def)
    next
      case False
      with step_last_video_dts(3) [OF w i] have "last_video_dts st' = last_video_dts st" by simp
      with False r v show ?thesis by (auto simp: defined_dts_def)
    qed
  qed
  then show ?thesis by (simp add: emitted_on_def)
qed

lemma loop_first_video_key:
  assumes "\<not> got_video_keyframe st"
    and "emitted_on (video_stream_idx st) (fst (relay_loop E streams a b st n ps)) \<noteq> []"
  shows "is_key (hd (emitted_on (video_stream_idx st) (fst (relay_loop E streams a b st n ps))))"
proof -
  let ?R = "\<lambda>st ws. \<not> got_video_keyframe st \<longrightarrow>
              filter (\<lambda>p. stream_index p = video_stream_idx st) ws \<noteq> [] \<longrightarrow>
              is_key (hd (filter (\<lambda>p. stream_index p = video_stream_idx st) ws))"
  have "?R st (emitted (fst (relay_loop E streams a b st n ps)))"
  proof (rule relay_loop_rule [where I = "\<lambda>st. True" and R = ?R])
    fix st pkt st' p ws
    assume w: "relay_step E streams a b st pkt = StepWrite st' p" and r: "?R st' ws"
    note s = relay_step_Write_state [OF w]
    from relay_step_WriteD [OF w] have
      k: "stream_index pkt = video_stream_idx st \<and> \<not> got_video_keyframe st \<longrightarrow> is_key pkt"
      by blast
    have "is_key p = is_key pkt" using s(6) by (simp add: is_key_def)
    with k r s(1,4,5) show "?R st (p # ws)" by auto
  qed simp_all
  with assms show ?thesis by (simp add: emitted_on_def)
qed

section \<open>The stream setup\<close>

lemma setup_streams_step:
  assumes "setup_streams ok i (s # rest) st = Some st'"
  shows "\<exists>stn. setup_streams ok (Suc i) rest stn = Some st'
           \<and> got_video_keyframe stn = got_video_keyframe st
           \<and> last_video_dts stn = last_video_dts st
           \<and> video_stream_idx stn = (if codec_type (codecpar s) = AVMEDIA_TYPE_VIDEO then int i
                                      else video_stream_idx st)
           \<and> out_streams stn = out_streams st @ map new_out_stream (filter copied_kind [s])
           \<and> length (stream_ctx stn) = Suc (length (stream_ctx st))
           \<and> set (stream_ctx stn) \<subseteq> set (stream_ctx st) \<union> {c. start_pts c = AV_NOPTS_VALUE}"
  using assms by (auto simp: Let_def copied_kind_def split: if_splits)

lemma setup_streams_facts:
  assumes "setup_streams ok i ss st = Some st'"
  shows "got_video_keyframe st' = got_video_keyframe st
       \<and> last_video_dts st' = last_video_dts st
       \<and> out_streams st' = out_streams st @ map new_out_stream (filter copied_kind ss)
       \<and> length (stream_ctx st') = length (stream_ctx st) + length ss
       \<and> set (stream_ctx st') \<subseteq> set (stream_ctx st) \<union> {c. start_pts c = AV_NOPTS_VALUE}"
  using assms
proof (induction ss arbitrary: i st)
  case Nil
  then show ?case by simp
next
  case (Cons s rest)
  from setup_streams_step [OF Cons.prems] obtain stn where
    n: "setup_streams ok (Suc i) rest stn = Some st'"
       "got_video_keyframe stn = got_video_keyframe st"
       "last_video_dts stn = last_video_dts st"
       "out_streams stn = out_streams st @ map new_out_stream (filter copied_kind [s])"
       "length (stream_ctx stn) = Suc (length (stream_ctx st))"
       "set (stream_ctx stn) \<subseteq> set (stream_ctx st) \<union> {c. start_pts c = AV_NOPTS_VALUE}"
    by blast
  from Cons.IH [OF n(1)] n(2-6) show ?case by auto
qed

lemma setup_video_idx:
  assumes "setup_streams ok i ss st = Some st'"
  shows "if \<exists>s\<in>set ss. is_video s
         then \<exists>k<length ss. video_stream_idx st' = int (i + k) \<and> is_video (ss ! k)
                \<and> (\<forall>j. k < j \<and> j < length ss \<longrightarrow> \<not> is_video (ss ! j))
         else video_stream_idx st' = video_stream_idx st"
  using assms
proof (induction ss arbitrary: i st)
  case Nil
  then show ?case by simp
next
  case (Cons s rest)
  obtain stn where rec: "setup_streams ok (Suc i) rest stn = Some st'"
    and vn: "video_stream_idx stn = (if is_video s then int i else video_stream_idx st)"
    using setup_streams_step [OF Cons.prems] by (auto simp: is_video_def)
  note ih = Cons.IH [OF rec]
  show ?case
  proof (cases "\<exists>s\<in>set rest. is_video s")
    case True
    with ih obtain k where k: "k < length rest" "video_stream_idx st' = int (Suc i + k)"
      "is_video (rest ! k)" "\<forall>j. k < j \<and> j < length rest \<longrightarrow> \<not> is_video (rest ! j)"
      by auto
    have "\<forall>j. Suc k < j \<and> j < length (s # rest) \<longrightarrow> \<not> is_video ((s # rest) ! j)"
    proof (intro allI impI)
      fix j assume "Suc k < j \<and> j < length (s # rest)"
      then obtain j' where "j = Suc j'" "k < j'" "j' < length rest" by (cases j) auto
      with k(4) show "\<not> is_video ((s # rest) ! j)" by simp
    qed
    with k have "\<exists>k'<length (s # rest). video_stream_idx st' = int (i + k')
        \<and> is_video ((s # rest) ! k')
        \<and> (\<forall>j. k' < j \<and> j < length (s # rest) \<longrightarrow> \<not> is_video ((s # rest) ! j))"
      by (intro exI [of _ "Suc k"]) simp
    moreover have "\<exists>a\<in>set (s # rest). is_video a" using True by auto
    ultimately show ?thesis by presburger
  next
    case False
    with ih have e: "video_stream_idx st' = video_stream_idx stn" by simp
    show ?thesis
    proof (cases "is_video s")
      case True
      have "\<forall>j. 0 < j \<and> j < length (s # rest) \<longrightarrow> \<not> is_video ((s # rest) ! j)"
      proof (intro allI impI)
        fix j assume "0 < j \<and> j < length (s # rest)"
        then obtain j' where "j = Suc j'" "j' < length rest" by (cases j) auto
        with False show "\<not> is_video ((s # rest) ! j)" by auto
      qed
      with True e vn have "\<exists>k'<length (s # rest). video_stream_idx st' = int (i + k')
        \<and> is_video ((s # rest) ! k')
        \<and> (\<forall>j. k' < j \<and> j < length (s # rest) \<longrightarrow> \<not> is_video ((s # rest) ! j))"
        by (intro exI [of _ 0]) simp
      moreover have "\<exists>a\<in>set (s # rest). is_video a" using True by auto
      ultimately show ?thesis by presburger
    next
      case f: False
      with False e vn show ?thesis by simp
    qed
  qed
qed

section \<open>Runs of Trim\<close>

lemma Trim_relay_cases:
  assumes "Trim_relay E s e streams a b st = (oc, tr)"
    and "got_video_keyframe st = False" and "last_video_dts st = AV_NOPTS_VALUE"
  shows "(emitted tr = [] \<and> (\<forall>x. EvReadFrame x \<notin> set tr) \<and> oc \<noteq> Returned 0)
       \<or> (\<exists>t es u. 0 \<le> video_stream_idx st \<and> video_stream_idx st < int (length streams)
             \<and> relay_loop E streams a b st 0 (frames E) = (es, u)
             \<and> tr = EvSeekFrame (video_stream_idx st) t True # es
                       @ (case u of Some x \<Rightarrow> [] | None \<Rightarrow> finish E s e)
             \<and> oc = (case u of Some x \<Rightarrow> Undefined x | None \<Rightarrow> Returned 0))"
proof -
  have id: "st\<lparr>got_video_keyframe := False, last_video_dts := AV_NOPTS_VALUE\<rparr> = st"
    using assms(2,3) by simp
  show ?thesis
    using assms(1) unfolding Trim_relay_def Let_def id finish_def
    by (auto simp: cleanup_def split: if_splits prod.splits option.splits)
qed

lemma Trim_setup_cases:
  assumes "Trim_setup E outp s e streams a b = (oc, tr)"
  shows "(emitted tr = [] \<and> (\<forall>x. EvReadFrame x \<notin> set tr) \<and> oc \<noteq> Returned 0)
       \<or> (\<exists>st pre es u. setup_streams (new_stream_ok E) 0 streams trim_init = Some st
             \<and> 0 \<le> video_stream_idx st \<and> video_stream_idx st < int (length streams)
             \<and> relay_loop E streams a b st 0 (frames E) = (es, u)
             \<and> emitted pre = [] \<and> (\<forall>x. EvReadFrame x \<notin> set pre) \<and> EvWriteTrailer \<notin> set pre
             \<and> tr = pre @ es @ (case u of Some x \<Rightarrow> [] | None \<Rightarrow> finish E s e)
             \<and> oc = (case u of Some x \<Rightarrow> Undefined x | None \<Rightarrow> Returned 0))"
proof (cases "alloc_output_ok E outp \<and> malloc_ok E \<and> avio_open_ok E outp \<and> write_header_ok E
              \<and> setup_streams (new_stream_ok E) 0 streams trim_init \<noteq> None")
  case False
  with assms show ?thesis
    by (auto simp: Trim_setup_def cleanup_def split: if_splits option.splits)
next
  case True
  then obtain st where st: "setup_streams (new_stream_ok E) 0 streams trim_init = Some st" by auto
  obtain oc' tr' where r: "Trim_relay E s e streams a b st = (oc', tr')" by (cases "Trim_relay E s e streams a b st")
  let ?pre = "[EvAllocOutput outp True, EvAvioOpen outp True, EvWriteHeader True]"
  have l: "oc = oc'" "tr = ?pre @ tr'"
    using assms True st r by (simp_all add: Trim_setup_def)
  have g: "got_video_keyframe st = False" "last_video_dts st = AV_NOPTS_VALUE"
    using setup_streams_facts [OF st] by (simp_all add: trim_init_def)
  from Trim_relay_cases [OF r g] show ?thesis
  proof
    assume "emitted tr' = [] \<and> (\<forall>x. EvReadFrame x \<notin> set tr') \<and> oc' \<noteq> Returned 0"
    with l show ?thesis by simp
  next
    assume "\<exists>t es u. 0 \<le> video_stream_idx st \<and> video_stream_idx st < int (length streams)
             \<and> relay_loop E streams a b st 0 (frames E) = (es, u)
             \<and> tr' = EvSeekFrame (video_stream_idx st) t True # es
                       @ (case u of Some x \<Rightarrow> [] | None \<Rightarrow> finish E s e)
             \<and> oc' = (case u of Some x \<Rightarrow> Undefined x | None \<Rightarrow> Returned 0)"
    then obtain t es u where x: "0 \<le> video_stream_idx st" "video_stream_idx st < int (length streams)"
      "relay_loop E streams a b st 0 (frames E) = (es, u)"
      "tr' = EvSeekFrame (video_stream_idx st) t True # es
                       @ (case u of Some x \<Rightarrow> [] | None \<Rightarrow> finish E s e)"
      "oc' = (case u of Some x \<Rightarrow> Undefined x | None \<Rightarrow> Returned 0)" by blast
    have "tr = (?pre @ [EvSeekFrame (video_stream_idx st) t True]) @ es
                  @ (case u of Some x \<Rightarrow> [] | None \<Rightarrow> finish E s e)"
      using l x(4) by simp
    moreover have "emitted (?pre @ [EvSeekFrame (video_stream_idx st) t True]) = []"
      "\<forall>x. EvReadFrame x \<notin> set (?pre @ [EvSeekFrame (video_stream_idx st) t True])"
      "EvWriteTrailer \<notin> set (?pre @ [EvSeekFrame (video_stream_idx st) t True])" by simp_all
    ultimately show ?thesis using st x(1,2,3,5) l(1) by blast
  qed
qed

lemma Trim_cases:
  assumes "Trim E inp outp s e = (oc, tr)"
  shows "(emitted tr = [] \<and> (\<forall>x. EvReadFrame x \<notin> set tr) \<and> oc \<noteq> Returned 0)
       \<or> (\<exists>streams st a b pre es u. open_input E inp = Opened streams
             \<and> fst (parse_time s) = Returned a \<and> fst (parse_time e) = Returned b \<and> a < b
             \<and> setup_streams (new_stream_ok E) 0 streams trim_init = Some st
             \<and> 0 \<le> video_stream_idx st \<and> video_stream_idx st < int (length streams)
             \<and> relay_loop E streams a b st 0 (frames E) = (es, u)
             \<and> emitted pre = [] \<and> (\<forall>x. EvReadFrame x \<notin> set pre) \<and> EvWriteTrailer \<notin> set pre
             \<and> tr = pre @ es @ (case u of Some x \<Rightarrow> [] | None \<Rightarrow> finish E s e)
             \<and> oc = (case u of Some x \<Rightarrow> Undefined x | None \<Rightarrow> Returned 0))"
proof (cases "\<exists>a b streams. parse_time s = (Returned a, []) \<and> parse_time e = (Returned b, []) \<and> a < b
                \<and> open_input E inp = Opened streams")
  case False
  have p: "parse_time x = (Returned v, es) \<Longrightarrow> es = []" for x v es
    by (rule parse_time_Returned_events)
  have q: "fst (parse_time x) \<noteq> Returned v \<or> parse_time x = (Returned v, [])" for x v
    using p [of x v] by (cases "parse_time x") auto
  have ev: "parse_time x = (r, es) \<Longrightarrow> emitted es = []" for x r es
    by (auto simp: parse_time_def split: scanned.splits if_splits)
  have ev2: "parse_time x = (r, es) \<Longrightarrow> EvReadFrame y \<in> set es \<Longrightarrow> False" for x r es y
    by (auto simp: parse_time_def split: scanned.splits if_splits)
  show ?thesis
    using assms False
    by (auto simp: Trim_def emitted_append split: prod.splits outcome.splits if_splits opened.splits
             dest: p ev ev2)
next
  case True
  then obtain a b streams where t: "parse_time s = (Returned a, [])" "parse_time e = (Returned b, [])"
    "a < b" "open_input E inp = Opened streams" by blast
  obtain oc' tr' where r: "Trim_setup E outp s e streams a b = (oc', tr')"
    by (cases "Trim_setup E outp s e streams a b")
  let ?pre = "[EvOpenInput inp True, EvFindStreamInfo True]"
  have l: "oc = oc'" "tr = ?pre @ tr'"
    using assms t r by (simp_all add: Trim_def)
  from Trim_setup_cases [OF r] show ?thesis
  proof
    assume "emitted tr' = [] \<and> (\<forall>x. EvReadFrame x \<notin> set tr') \<and> oc' \<noteq> Returned 0"
    with l show ?thesis by simp
  next
    assume "\<exists>st pre es u. setup_streams (new_stream_ok E) 0 streams trim_init = Some st
             \<and> 0 \<le> video_stream_idx st \<and> video_stream_idx st < int (length streams)
             \<and> relay_loop E streams a b st 0 (frames E) = (es, u)
             \<and> emitted pre = [] \<and> (\<forall>x. EvReadFrame x \<notin> set pre) \<and> EvWriteTrailer \<notin> set pre
             \<and> tr' = pre @ es @ (case u of Some x \<Rightarrow> [] | None \<Rightarrow> finish E s e)
             \<and> oc' = (case u of Some x \<Rightarrow> Undefined x | None \<Rightarrow> Returned 0)"
    then obtain st pre es u where x: "setup_streams (new_stream_ok E) 0 streams trim_init = Some st"
      "0 \<le> video_stream_idx st" "video_stream_idx st < int (length streams)"
      "relay_loop E streams a b st 0 (frames E) = (es, u)"
      "emitted pre = []" "\<forall>x. EvReadFrame x \<notin> set pre" "EvWriteTrailer \<notin> set pre"
      "tr' = pre @ es @ (case u of Some x \<Rightarrow> [] | None \<Rightarrow> finish E s e)"
      "oc' = (case u of Some x \<Rightarrow> Undefined x | None \<Rightarrow> Returned 0)" by blast
    have "tr = (?pre @ pre) @ es @ (case u of Some x \<Rightarrow> [] | None \<Rightarrow> finish E s e)"
      using l x(8) by simp
    moreover have "emitted (?pre @ pre) = []" "\<forall>x. EvReadFrame x \<notin> set (?pre @ pre)"
      "EvWriteTrailer \<notin> set (?pre @ pre)"
      using x(5,6,7) by simp_all
    moreover have "fst (parse_time s) = Returned a" "fst (parse_time e) = Returned b"
      using t by simp_all
    ultimately show ?thesis using t(3,4) x(1,2,3,4,9) l(1) by blast
  qed
qed

lemmas run_defs = Trim_def Trim_setup_def Trim_relay_def sample_env_def sample_audio_def
  sample_video_def trim_init_def in_int64_def AV_TIME_BASE_def new_out_stream_def
  relay_step_def renormalize_def origin_capture_def adjust_pts_def adjust_dts_def repair_pts_def
  sub64_def add64_def is_key_def AV_NOPTS_VALUE_def AV_PKT_FLAG_KEY_def packet_def
  exact_seconds_def cleanup_def AV_TIME_BASE_Q_def failing_env_def

lemma sample_run_trace:
  "Trim sample_run ''in.mp4'' ''out.mp4'' ''00:00'' ''01:00'' =
     (Returned 0,
      [EvOpenInput ''in.mp4'' True, EvFindStreamInfo True, EvAllocOutput ''out.mp4'' True,
       EvAvioOpen ''out.mp4'' True, EvWriteHeader True, EvSeekFrame 0 0 True,
       EvReadFrame (Some (packet 0 5 5 0)),
       EvReadFrame (Some (packet 0 6 6 1)),
       EvWriteFrame \<lparr>stream_index = 0, pts = 0, dts = 0, duration = 1, flags = 1, pos = - 1\<rparr> True,
       EvReadFrame (Some (packet 1 10 5 0)),
       EvWriteFrame \<lparr>stream_index = 1, pts = 0, dts = 0, duration = 1, flags = 0, pos = - 1\<rparr> True,
       EvReadFrame (Some (packet 1 12 11 0)),
       EvWriteFrame \<lparr>stream_index = 1, pts = 2, dts = 6, duration = 1, flags = 0, pos = - 1\<rparr> True,
       EvReadFrame (Some (packet 0 8 7 0)),
       EvWriteFrame \<lparr>stream_index = 0, pts = 2, dts = 1, duration = 1, flags = 0, pos = - 1\<rparr> True,
       EvReadFrame (Some (packet 0 7 6 0)),
       EvWriteFrame \<lparr>stream_index = 0, pts = 2, dts = 2, duration = 1, flags = 0, pos = - 1\<rparr> True,
       EvReadFrame (Some (packet 0 100 100 0)), EvWriteTrailer, EvAvioClose, EvFreeContext, EvCloseInput,
       EvStdout ''Successfully trimmed from 00:00 to 01:00''])"
  by (simp add: sample_run_def sample_packets_def parse_time_00_00 parse_time_01_00 run_defs)

lemma sample_run_primary: "primary_stream sample_run ''in.mp4'' = Some 0"
  by (simp add: primary_stream_def sample_run_def run_defs)

lemma emitted_finish: "emitted (finish E s e) = []"
  by (simp add: finish_def emitted_append emitted_cleanup)

lemma primary_streamD:
  assumes "primary_stream E inp = Some v"
  shows "\<exists>streams st. open_input E inp = Opened streams
           \<and> setup_streams (new_stream_ok E) 0 streams trim_init = Some st
           \<and> video_stream_idx st = v \<and> \<not> got_video_keyframe st
           \<and> last_video_dts st = AV_NOPTS_VALUE"
proof -
  from assms obtain streams st where o: "open_input E inp = Opened streams"
    and s: "setup_streams (new_stream_ok E) 0 streams trim_init = Some st"
    and v: "video_stream_idx st = v"
    by (auto simp: primary_stream_def split: opened.splits)
  from setup_streams_facts [OF s] have "\<not> got_video_keyframe st" "last_video_dts st = AV_NOPTS_VALUE"
    by (simp_all add: trim_init_def)
  with o s v show ?thesis by blast
qed

lemma Trim_emitted:
  assumes "open_input E inp = Opened streams"
    and "setup_streams (new_stream_ok E) 0 streams trim_init = Some st"
  shows "emitted (snd (Trim E inp outp s e)) = []
       \<or> (\<exists>a b. fst (parse_time s) = Returned a \<and> fst (parse_time e) = Returned b
             \<and> emitted (snd (Trim E inp outp s e))
                 = emitted (fst (relay_loop E streams a b st 0 (frames E))))"
proof -
  obtain oc tr where t: "Trim E inp outp s e = (oc, tr)" by (cases "Trim E inp outp s e")
  from Trim_cases [OF t] show ?thesis
  proof
    assume "emitted tr = [] \<and> (\<forall>x. EvReadFrame x \<notin> set tr) \<and> oc \<noteq> Returned 0"
    with t show ?thesis by simp
  next
    assume "\<exists>streams st a b pre es u. open_input E inp = Opened streams
             \<and> fst (parse_time s) = Returned a \<and> fst (parse_time e) = Returned b \<and> a < b
             \<and> setup_streams (new_stream_ok E) 0 streams trim_init = Some st
             \<and> 0 \<le> video_stream_idx st \<and> video_stream_idx st < int (length streams)
             \<and> relay_loop E streams a b st 0 (frames E) = (es, u)
             \<and> emitted pre = [] \<and> (\<forall>x. EvReadFrame x \<notin> set pre) \<and> EvWriteTrailer \<notin> set pre
             \<and> tr = pre @ es @ (case u of Some x \<Rightarrow> [] | None \<Rightarrow> finish E s e)
             \<and> oc = (case u of Some x \<Rightarrow> Undefined x | None \<Rightarrow> Returned 0)"
    then obtain streams' st' a b pre es u where x:
      "open_input E inp = Opened streams'"
      "fst (parse_time s) = Returned a" "fst (parse_time e) = Returned b"
      "setup_streams (new_stream_ok E) 0 streams' trim_init = Some st'"
      "relay_loop E streams' a b st' 0 (frames E) = (es, u)"
      "emitted pre = []"
      "tr = pre @ es @ (case u of Some x \<Rightarrow> [] | None \<Rightarrow> finish E s e)"
      by blast
    have e: "streams' = streams" "st' = st" using x(1,4) assms by simp_all
    have "emitted tr = emitted es"
      using x(6,7) by (simp add: emitted_append emitted_finish split: option.splits)
    with x(2,3,5) e t show ?thesis by auto
  qed
qed

section \<open>Written packets and the packets they came from\<close>

lemma relayed_from_no_writes: "emitted ys = [] \<Longrightarrow> relayed_from c ys = []"
proof (induction ys arbitrary: c)
  case (Cons e es)
  then show ?case by (cases e) simp_all
qed simp

lemma relayed_from_append_no_writes:
  "emitted ys = [] \<Longrightarrow> relayed_from c (xs @ ys) = relayed_from c xs"
proof (induction xs arbitrary: c)
  case Nil
  then show ?case by (simp add: relayed_from_no_writes)
next
  case (Cons e es)
  then show ?case by (cases e) (simp_all split: option.splits)
qed

lemma relayed_from_prefix:
  "emitted pre = [] \<Longrightarrow> \<forall>x. EvReadFrame x \<notin> set pre \<Longrightarrow> relayed_from c (pre @ ys) = relayed_from c ys"
proof (induction pre)
  case (Cons e es)
  then show ?case by (cases e) auto
qed simp

text \<open>The invariant rule, for the written packets with the packets they came from.\<close>

lemma relay_loop_pairs_rule:
  assumes inv: "I st"
    and keep: "\<And>st pkt st' p. I st \<Longrightarrow> relay_step E streams a b st pkt = StepWrite st' p \<Longrightarrow> I st'"
    and nil: "\<And>st. I st \<Longrightarrow> R st []"
    and cons: "\<And>st pkt st' p ws. I st \<Longrightarrow> relay_step E streams a b st pkt = StepWrite st' p
                 \<Longrightarrow> R st' ws \<Longrightarrow> R st ((pkt, p) # ws)"
  shows "R st (relayed_from c (fst (relay_loop E streams a b st n ps)))"
  using inv
proof (induction ps arbitrary: st n c)
  case Nil
  then show ?case by (simp add: nil)
next
  case (Cons pkt rest)
  show ?case
  proof (cases "relay_step E streams a b st pkt")
    case (StepContinue st')
    then have "st' = st" by (rule relay_step_ContinueD)
    with StepContinue Cons.IH [OF Cons.prems, of "Some pkt" n] show ?thesis by simp
  next
    case StepBreak
    then show ?thesis by (simp add: nil [OF Cons.prems])
  next
    case (StepWrite st' p)
    have i': "I st'" by (rule keep [OF Cons.prems StepWrite])
    show ?thesis
    proof (cases "write_frame_ok E n")
      case True
      with StepWrite cons [OF Cons.prems StepWrite Cons.IH [OF i', of "Some pkt" "Suc n"]]
      show ?thesis by simp
    next
      case False
      with StepWrite cons [OF Cons.prems StepWrite nil [OF i']]
      show ?thesis by simp
    qed
  next
    case (StepUndefined u)
    then show ?thesis by (simp add: nil [OF Cons.prems])
  qed
qed

lemma Trim_relayed:
  assumes "open_input E inp = Opened streams"
    and "setup_streams (new_stream_ok E) 0 streams trim_init = Some st"
  shows "relayed (snd (Trim E inp outp s e)) = []
       \<or> (\<exists>a b. fst (parse_time s) = Returned a \<and> fst (parse_time e) = Returned b
             \<and> relayed (snd (Trim E inp outp s e))
                 = relayed (fst (relay_loop E streams a b st 0 (frames E))))"
proof -
  obtain oc tr where t: "Trim E inp outp s e = (oc, tr)" by (cases "Trim E inp outp s e")
  from Trim_cases [OF t] show ?thesis
  proof
    assume "emitted tr = [] \<and> (\<forall>x. EvReadFrame x \<notin> set tr) \<and> oc \<noteq> Returned 0"
    with t show ?thesis by (simp add: relayed_def relayed_from_no_writes)
  next
    assume "\<exists>streams st a b pre es u. open_input E inp = Opened streams
             \<and> fst (parse_time s) = Returned a \<and> fst (parse_time e) = Returned b \<and> a < b
             \<and> setup_streams (new_stream_ok E) 0 streams trim_init = Some st
             \<and> 0 \<le> video_stream_idx st \<and> video_stream_idx st < int (length streams)
             \<and> relay_loop E streams a b st 0 (frames E) = (es, u)
             \<and> emitted pre = [] \<and> (\<forall>x. EvReadFrame x \<notin> set pre) \<and> EvWriteTrailer \<notin> set pre
             \<and> tr = pre @ es @ (case u of Some x \<Rightarrow> [] | None \<Rightarrow> finish E s e)
             \<and> oc = (case u of Some x \<Rightarrow> Undefined x | None \<Rightarrow> Returned 0)"
    then obtain streams' st' a b pre es u where x:
      "open_input E inp = Opened streams'"
      "fst (parse_time s) = Returned a" "fst (parse_time e) = Returned b"
      "setup_streams (new_stream_ok E) 0 streams' trim_init = Some st'"
      "relay_loop E streams' a b st' 0 (frames E) = (es, u)"
      "emitted pre = []" "\<forall>x. EvReadFrame x \<notin> set pre"
      "tr = pre @ es @ (case u of Some x \<Rightarrow> [] | None \<Rightarrow> finish E s e)"
      by blast
    have e: "streams' = streams" "st' = st" using x(1,4) assms by simp_all
    have "emitted (case u of Some x \<Rightarrow> [] | None \<Rightarrow> finish E s e) = []"
      by (simp add: emitted_finish split: option.splits)
    then have "relayed tr = relayed es"
      unfolding relayed_def x(8) relayed_from_prefix [OF x(6,7)]
      by (rule relayed_from_append_no_writes)
    with x(2,3,5) e t show ?thesis by auto
  qed
qed

lemma adjust_dts_ge:
  "adjust_dts primary lastv c pkt = Some (pkt2, lastv') \<Longrightarrow> dts pkt \<noteq> AV_NOPTS_VALUE
     \<Longrightarrow> dts pkt - start_dts c \<le> dts pkt2"
  by (auto simp: adjust_dts_def sub64_def add64_def split: if_splits)

lemma repair_pts_cases:
  "pts (repair_pts primary pkt) = pts pkt
   \<or> (primary \<and> pts pkt \<noteq> AV_NOPTS_VALUE \<and> dts pkt \<noteq> AV_NOPTS_VALUE \<and> pts pkt < dts pkt
       \<and> pts (repair_pts primary pkt) = dts pkt)"
  by (simp add: repair_pts_def)

lemma step_timestamps:
  assumes "relay_step E streams a b st pkt = StepWrite st' p"
  defines "c \<equiv> origin_capture (stream_ctx st ! nat (stream_index pkt)) pkt"
  shows "pts pkt = AV_NOPTS_VALUE \<Longrightarrow> pts p = AV_NOPTS_VALUE"
    and "pts pkt \<noteq> AV_NOPTS_VALUE \<Longrightarrow>
           pts p = pts pkt - start_pts c
           \<or> (stream_index pkt = video_stream_idx st \<and> dts p \<noteq> AV_NOPTS_VALUE
               \<and> pts pkt - start_pts c < dts p \<and> pts p = dts p)"
    and "dts pkt = AV_NOPTS_VALUE \<Longrightarrow> dts p = AV_NOPTS_VALUE"
    and "dts pkt \<noteq> AV_NOPTS_VALUE \<Longrightarrow> dts pkt - start_dts c \<le> dts p"
    and "dts pkt \<noteq> AV_NOPTS_VALUE \<Longrightarrow>
           stream_index pkt \<noteq> video_stream_idx st \<or> last_video_dts st = AV_NOPTS_VALUE \<Longrightarrow>
           dts p = dts pkt - start_dts c"
proof -
  let ?k = "nat (stream_index pkt)"
  from relay_step_WriteD [OF assms(1)] obtain st1 where
    s: "0 \<le> stream_index pkt"
       "st1 = st\<lparr>got_video_keyframe := (got_video_keyframe st \<or> stream_index pkt = video_stream_idx st)\<rparr>"
       "renormalize E (streams ! ?k) ?k st1 pkt = StepWrite st' p"
    by blast
  let ?prim = "int ?k = video_stream_idx st1"
  have c: "origin_capture (stream_ctx st1 ! ?k) pkt = c" using s(2) by (simp add: c_def)
  from renormalize_WriteD [OF s(3)] obtain pkt1 pkt2 lastv where
    r: "adjust_pts c pkt = Some pkt1"
       "adjust_dts ?prim (last_video_dts st1) c pkt1 = Some (pkt2, lastv)"
       "p = (repair_pts ?prim pkt2)
                 \<lparr>duration := av_rescale_q E (duration (repair_pts ?prim pkt2))
                                (time_base (streams ! ?k)) (time_base (out_streams st1 ! ?k)),
                  pos := - 1\<rparr>"
    unfolding c by blast
  have prim: "?prim \<longleftrightarrow> stream_index pkt = video_stream_idx st" using s(1,2) by auto
  have l: "last_video_dts st1 = last_video_dts st" using s(2) by simp
  have d1: "dts pkt1 = dts pkt"
    using adjust_pts_SomeD(1) [OF r(1)]
    by (metis AVPacket.select_convs(3) AVPacket.surjective AVPacket.update_convs(2))
  have p2: "pts pkt2 = pts pkt1"
    using adjust_dts_SomeD(1) [OF r(2)]
    by (metis AVPacket.select_convs(2) AVPacket.surjective AVPacket.update_convs(3))
  have pp: "pts p = pts (repair_pts ?prim pkt2)" and dp: "dts p = dts pkt2"
    using r(3) by (simp_all add: repair_pts_fields)
  note ap = adjust_pts_SomeD [OF r(1)]
  note ad = adjust_dts_SomeD [OF r(2)]
  show "pts p = AV_NOPTS_VALUE" if "pts pkt = AV_NOPTS_VALUE"
    using that ap(2) p2 pp by (simp add: repair_pts_fields)
  show "pts p = pts pkt - start_pts c
           \<or> (stream_index pkt = video_stream_idx st \<and> dts p \<noteq> AV_NOPTS_VALUE
               \<and> pts pkt - start_pts c < dts p \<and> pts p = dts p)"
    if "pts pkt \<noteq> AV_NOPTS_VALUE"
    using that ap(3) p2 pp dp prim repair_pts_cases [of ?prim pkt2] by auto
  show "dts p = AV_NOPTS_VALUE" if "dts pkt = AV_NOPTS_VALUE"
    using that ad(2) d1 dp by simp
  show "dts pkt - start_dts c \<le> dts p" if "dts pkt \<noteq> AV_NOPTS_VALUE"
    using that adjust_dts_ge [OF r(2)] d1 dp by simp
  show "dts p = dts pkt - start_dts c"
    if "dts pkt \<noteq> AV_NOPTS_VALUE"
      "stream_index pkt \<noteq> video_stream_idx st \<or> last_video_dts st = AV_NOPTS_VALUE"
    using that ad(4,5) d1 dp prim l by auto
qed


lemma step_last_nonprimary:
  assumes "relay_step E streams a b st pkt = StepWrite st' p"
    and "stream_index pkt \<noteq> video_stream_idx st"
  shows "last_video_dts st' = last_video_dts st"
proof -
  let ?k = "nat (stream_index pkt)"
  from relay_step_WriteD [OF assms(1)] obtain st1 where
    s: "0 \<le> stream_index pkt"
       "st1 = st\<lparr>got_video_keyframe := (got_video_keyframe st \<or> stream_index pkt = video_stream_idx st)\<rparr>"
       "renormalize E (streams ! ?k) ?k st1 pkt = StepWrite st' p"
    by blast
  from renormalize_WriteD [OF s(3)] obtain pkt1 pkt2 lastv where
    r: "adjust_dts (int ?k = video_stream_idx st1) (last_video_dts st1)
          (origin_capture (stream_ctx st1 ! ?k) pkt) pkt1 = Some (pkt2, lastv)"
       "st' = st1\<lparr>stream_ctx := (stream_ctx st1)[?k := origin_capture (stream_ctx st1 ! ?k) pkt],
                   last_video_dts := lastv\<rparr>"
    by blast
  have "\<not> (int ?k = video_stream_idx st1)" using s(1,2) assms(2) by simp
  from adjust_dts_SomeD(3) [OF r(1) this] r(2) s(2) show ?thesis by simp
qed

lemma step_first_at_zero:
  assumes w: "relay_step E streams a b st pkt = StepWrite st' p"
    and u: "start_pts (stream_ctx st ! nat (stream_index pkt)) = AV_NOPTS_VALUE"
    and l: "stream_index pkt = video_stream_idx st \<longrightarrow> last_video_dts st = AV_NOPTS_VALUE"
  shows "first_at_zero (pkt, p)"
proof -
  let ?c = "origin_capture (stream_ctx st ! nat (stream_index pkt)) pkt"
  have c: "start_pts ?c = pts pkt" "start_dts ?c = dts pkt"
    using u by (simp_all add: origin_capture_def)
  note t = step_timestamps [OF w, unfolded c]
  have d: "dts p = (if dts pkt = AV_NOPTS_VALUE then AV_NOPTS_VALUE else 0)"
    using t(3) t(5) l by auto
  have "pts p = (if pts pkt = AV_NOPTS_VALUE then AV_NOPTS_VALUE else 0)"
    using t(1) t(2) d by (auto split: if_splits)
  with d show ?thesis by (simp add: first_at_zero_def)
qed

lemma step_origin_applied:
  assumes w: "relay_step E streams a b st pkt = StepWrite st' p"
    and u: "start_pts (stream_ctx st ! nat (stream_index pkt)) \<noteq> AV_NOPTS_VALUE"
  shows "origin_applied (stream_index pkt = video_stream_idx st)
           (start_pts (stream_ctx st ! nat (stream_index pkt)))
           (start_dts (stream_ctx st ! nat (stream_index pkt))) (pkt, p)"
proof -
  let ?c = "origin_capture (stream_ctx st ! nat (stream_index pkt)) pkt"
  have c: "?c = stream_ctx st ! nat (stream_index pkt)"
    using u by (simp add: origin_capture_def)
  note t = step_timestamps [OF w, unfolded c]
  show ?thesis
    unfolding origin_applied_def using t(2) t(4) t(5) by auto
qed

lemma loop_origin:
  fixes k :: int
  defines "on \<equiv> filter (\<lambda>(q, p). stream_index q = k)"
  assumes k: "0 \<le> k"
  shows "(start_pts (stream_ctx st ! nat k) = AV_NOPTS_VALUE
            \<and> (k = video_stream_idx st \<longrightarrow> last_video_dts st = AV_NOPTS_VALUE) \<longrightarrow>
          (case on (relayed_from c (fst (relay_loop E streams a b st n ps))) of
             [] \<Rightarrow> True
           | qp # rest \<Rightarrow> first_at_zero qp
               \<and> (pts (fst qp) \<noteq> AV_NOPTS_VALUE \<longrightarrow>
                    list_all (origin_applied (k = video_stream_idx st) (pts (fst qp)) (dts (fst qp))) rest)))
       \<and> (start_pts (stream_ctx st ! nat k) \<noteq> AV_NOPTS_VALUE \<longrightarrow>
            list_all (origin_applied (k = video_stream_idx st) (start_pts (stream_ctx st ! nat k))
                        (start_dts (stream_ctx st ! nat k)))
              (on (relayed_from c (fst (relay_loop E streams a b st n ps)))))"
    (is "?R st (relayed_from c (fst (relay_loop E streams a b st n ps)))")
proof (rule relay_loop_pairs_rule [where I = "\<lambda>st. True" and R = ?R])
  fix st :: trim_state
  show "?R st []" by (simp add: on_def)
next
  fix st pkt st' p ws
  assume w: "relay_step E streams a b st pkt = StepWrite st' p" and r: "?R st' ws"
  note s = relay_step_Write_state [OF w]
  let ?j = "nat (stream_index pkt)"
  show "?R st ((pkt, p) # ws)"
  proof (cases "stream_index pkt = k")
    case False
    then have "?j \<noteq> nat k" using s(7) k by simp
    then have "stream_ctx st' ! nat k = stream_ctx st ! nat k" using s(12) by simp
    moreover have "k = video_stream_idx st \<longrightarrow> last_video_dts st' = last_video_dts st"
      using step_last_nonprimary [OF w] False by auto
    moreover have "on ((pkt, p) # ws) = on ws" using False by (simp add: on_def)
    moreover note r [unfolded s(1)]
    ultimately show ?thesis by presburger
  next
    case True
    then have j: "?j = nat k" by simp
    have o: "on ((pkt, p) # ws) = (pkt, p) # on ws" using True by (simp add: on_def)
    show ?thesis
    proof (cases "start_pts (stream_ctx st ! nat k) = AV_NOPTS_VALUE")
      case u: True
      have c': "stream_ctx st' ! nat k = (stream_ctx st ! nat k)\<lparr>start_pts := pts pkt, start_dts := dts pkt\<rparr>"
        using s(12) s(10) u j by (simp add: origin_capture_def)
      have "first_at_zero (pkt, p)"
        if "k = video_stream_idx st \<longrightarrow> last_video_dts st = AV_NOPTS_VALUE"
        using step_first_at_zero [OF w] u j True that by simp
      moreover have "list_all (origin_applied (k = video_stream_idx st) (pts pkt) (dts pkt)) (on ws)"
        if "pts pkt \<noteq> AV_NOPTS_VALUE"
        using r c' that s(1) by simp
      ultimately show ?thesis using u o by simp
    next
      case n: False
      have c': "stream_ctx st' ! nat k = stream_ctx st ! nat k"
        using s(12) s(10) n j by (simp add: origin_capture_def)
      have "origin_applied (k = video_stream_idx st) (start_pts (stream_ctx st ! nat k))
              (start_dts (stream_ctx st ! nat k)) (pkt, p)"
        using step_origin_applied [OF w] n j True by simp
      with r c' n o s(1) show ?thesis by simp
    qed
  qed
qed simp_all


lemma loop_routed:
  "list_all (routed E streams (out_streams st))
     (relayed_from c (fst (relay_loop E streams a b st n ps)))"
proof (rule relay_loop_pairs_rule [where I = "\<lambda>st. True"
         and R = "\<lambda>st ws. list_all (routed E streams (out_streams st)) ws"])
  fix st pkt st' p ws
  assume w: "relay_step E streams a b st pkt = StepWrite st' p"
    and r: "list_all (routed E streams (out_streams st')) ws"
  note s = relay_step_Write_state [OF w]
  have "routed E streams (out_streams st) (pkt, p)"
    using s(5,7,8,9,11,13) by (simp add: routed_def)
  with r s(2) show "list_all (routed E streams (out_streams st)) ((pkt, p) # ws)" by simp
qed simp_all

lemma renormalize_out_of_bounds:
  "renormalize E in_stream k st pkt = StepUndefined OutOfBounds
     \<Longrightarrow> \<not> k < length (stream_ctx st) \<or> \<not> k < length (out_streams st)"
  unfolding renormalize_def Let_def
  by (simp split: if_splits option.splits prod.splits)

lemma relay_step_out_of_bounds:
  assumes "relay_step E streams a b st pkt = StepUndefined OutOfBounds"
  shows "\<not> (0 \<le> stream_index pkt \<and> stream_index pkt < int (length streams))
       \<or> (copied_kind (streams ! nat (stream_index pkt))
           \<and> (\<not> nat (stream_index pkt) < length (stream_ctx st)
               \<or> \<not> nat (stream_index pkt) < length (out_streams st)))"
proof (cases "0 \<le> stream_index pkt \<and> stream_index pkt < int (length streams)")
  case False
  then show ?thesis by simp
next
  case True
  let ?in = "streams ! nat (stream_index pkt)"
  have ck: "copied_kind ?in"
    using assms True by (auto simp: relay_step_def Let_def copied_kind_def split: if_splits)
  obtain st1 where r: "renormalize E ?in (nat (stream_index pkt)) st1 pkt = StepUndefined OutOfBounds"
    and s: "stream_ctx st1 = stream_ctx st" "out_streams st1 = out_streams st"
    using assms True
    by (auto simp: relay_step_def Let_def split: if_splits)
  from renormalize_out_of_bounds [OF r] s ck show ?thesis by simp
qed

lemma step_no_out_of_bounds:
  assumes "length (stream_ctx st) = length streams"
    and "\<forall>i<length streams. copied_kind (streams ! i) \<longrightarrow> i < length (out_streams st)"
    and "0 \<le> stream_index pkt" and "stream_index pkt < int (length streams)"
  shows "relay_step E streams a b st pkt \<noteq> StepUndefined OutOfBounds"
proof
  assume "relay_step E streams a b st pkt = StepUndefined OutOfBounds"
  from relay_step_out_of_bounds [OF this] assms show False by auto
qed

lemma loop_no_out_of_bounds:
  assumes "length (stream_ctx st) = length streams"
    and "\<forall>i<length streams. copied_kind (streams ! i) \<longrightarrow> i < length (out_streams st)"
    and "\<forall>q\<in>set ps. 0 \<le> stream_index q \<and> stream_index q < int (length streams)"
  shows "snd (relay_loop E streams a b st n ps) \<noteq> Some OutOfBounds"
  using assms
proof (induction ps arbitrary: st n)
  case Nil
  then show ?case by simp
next
  case (Cons pkt rest)
  have no: "relay_step E streams a b st pkt \<noteq> StepUndefined OutOfBounds"
    using step_no_out_of_bounds [OF Cons.prems(1,2)] Cons.prems(3) by simp
  have rest: "\<forall>q\<in>set rest. 0 \<le> stream_index q \<and> stream_index q < int (length streams)"
    using Cons.prems(3) by simp
  show ?case
  proof (cases "relay_step E streams a b st pkt")
    case (StepContinue st')
    then have "st' = st" by (rule relay_step_ContinueD)
    with StepContinue Cons.IH [OF Cons.prems(1,2) rest, of n] show ?thesis by simp
  next
    case StepBreak
    then show ?thesis by simp
  next
    case (StepWrite st' p)
    note s = relay_step_Write_state [OF StepWrite]
    have "length (stream_ctx st') = length streams"
      "\<forall>i<length streams. copied_kind (streams ! i) \<longrightarrow> i < length (out_streams st')"
      using s(2,3) Cons.prems(1,2) by simp_all
    from Cons.IH [OF this rest, of "Suc n"] StepWrite show ?thesis by simp
  next
    case (StepUndefined u)
    with no show ?thesis by simp
  qed
qed

lemma parse_time_not_out_of_bounds: "fst (parse_time x) \<noteq> Undefined OutOfBounds"
  by (simp add: parse_time_def split: scanned.splits)

lemma Trim_relay_out_of_bounds:
  assumes "fst (Trim_relay E s e streams a b st) = Undefined OutOfBounds"
  shows "\<not> (0 \<le> video_stream_idx st \<and> video_stream_idx st < int (length streams))
       \<or> snd (relay_loop E streams a b
                (st\<lparr>got_video_keyframe := False, last_video_dts := AV_NOPTS_VALUE\<rparr>) 0 (frames E))
           = Some OutOfBounds"
  using assms
  by (auto simp: Trim_relay_def Let_def split: if_splits prod.splits option.splits)

lemma Trim_out_of_bounds:
  assumes "fst (Trim E inp outp s e) = Undefined OutOfBounds"
  shows "\<exists>streams st a b. open_input E inp = Opened streams
           \<and> setup_streams (new_stream_ok E) 0 streams trim_init = Some st
           \<and> (\<not> (0 \<le> video_stream_idx st \<and> video_stream_idx st < int (length streams))
               \<or> snd (relay_loop E streams a b st 0 (frames E)) = Some OutOfBounds)"
proof -
  from assms parse_time_not_out_of_bounds [of s] parse_time_not_out_of_bounds [of e]
  obtain streams a b where o: "open_input E inp = Opened streams"
    and t: "fst (Trim_setup E outp s e streams a b) = Undefined OutOfBounds"
    by (auto simp: Trim_def split: prod.splits outcome.splits if_splits opened.splits)
  from t obtain st where st: "setup_streams (new_stream_ok E) 0 streams trim_init = Some st"
    and r: "fst (Trim_relay E s e streams a b st) = Undefined OutOfBounds"
    by (auto simp: Trim_setup_def split: if_splits option.splits)
  have g: "st\<lparr>got_video_keyframe := False, last_video_dts := AV_NOPTS_VALUE\<rparr> = st"
    using setup_streams_facts [OF st] by (simp add: trim_init_def)
  from Trim_relay_out_of_bounds [OF r] o st show ?thesis unfolding g by blast
qed

lemma filter_prefix_nth':
  assumes "list_all (\<lambda>s. \<not> P s) (dropWhile P xs)" and "i < length xs" and "P (xs ! i)"
  shows "i < length (filter P xs) \<and> filter P xs ! i = xs ! i"
  using assms
proof (induction xs arbitrary: i)
  case Nil
  then show ?case by simp
next
  case (Cons x xs)
  show ?case
  proof (cases "P x")
    case False
    with Cons.prems(1) have "list_all (\<lambda>s. \<not> P s) (x # xs)" by simp
    moreover have "(x # xs) ! i \<in> set (x # xs)" using Cons.prems(2) by (rule nth_mem)
    ultimately have "\<not> P ((x # xs) ! i)" by (simp only: list_all_iff) blast
    with Cons.prems(3) show ?thesis by simp
  next
    case True
    with Cons.prems(1) have d: "list_all (\<lambda>s. \<not> P s) (dropWhile P xs)" by simp
    show ?thesis
    proof (cases i)
      case 0
      with True show ?thesis by simp
    next
      case (Suc i')
      with Cons.IH [OF d, of i'] Cons.prems True show ?thesis by simp
    qed
  qed
qed

lemma setup_out_streams_prefix:
  assumes "setup_streams ok 0 streams trim_init = Some st" and "copied_prefix streams"
    and "i < length streams" and "copied_kind (streams ! i)"
  shows "i < length (out_streams st) \<and> out_streams st ! i = new_out_stream (streams ! i)"
proof -
  from setup_streams_facts [OF assms(1)]
  have o: "out_streams st = map new_out_stream (filter copied_kind streams)"
    by (simp add: trim_init_def)
  from filter_prefix_nth' [of copied_kind streams i] assms(2,3,4)
  have "i < length (filter copied_kind streams)" "filter copied_kind streams ! i = streams ! i"
    by (simp_all add: copied_prefix_def)
  with o show ?thesis by simp
qed

lemma undefined_pts_run_trace:
  "Trim undefined_pts_run ''in.mp4'' ''out.mp4'' ''00:00'' ''01:00'' =
     (Returned 0,
      [EvOpenInput ''in.mp4'' True, EvFindStreamInfo True, EvAllocOutput ''out.mp4'' True,
       EvAvioOpen ''out.mp4'' True, EvWriteHeader True, EvSeekFrame 0 0 True,
       EvReadFrame (Some (packet 1 AV_NOPTS_VALUE 10 0)),
       EvWriteFrame \<lparr>stream_index = 1, pts = AV_NOPTS_VALUE, dts = 0, duration = 1, flags = 0,
                     pos = - 1\<rparr> True,
       EvReadFrame (Some (packet 1 AV_NOPTS_VALUE 20 0)),
       EvWriteFrame \<lparr>stream_index = 1, pts = AV_NOPTS_VALUE, dts = 0, duration = 1, flags = 0,
                     pos = - 1\<rparr> True,
       EvReadFrame None, EvWriteTrailer, EvAvioClose, EvFreeContext, EvCloseInput,
       EvStdout ''Successfully trimmed from 00:00 to 01:00''])"
  by (simp add: undefined_pts_run_def parse_time_00_00 parse_time_01_00 run_defs)

section \<open>What the keyframe gate lets through\<close>

lemma relay_step_Continue_gate:
  assumes "relay_step E streams a b st pkt = StepContinue st'"
    and "0 \<le> stream_index pkt" and "stream_index pkt < int (length streams)"
    and "copied_kind (streams ! nat (stream_index pkt))"
    and "in_window E streams a b pkt"
  shows "stream_index pkt = video_stream_idx st \<and> \<not> got_video_keyframe st \<and> \<not> is_key pkt"
proof -
  have r: "renormalize E s k st0 pkt \<noteq> StepContinue st'" for s k st0
    by (simp add: renormalize_def Let_def split: option.splits prod.splits)
  show ?thesis
    using assms r
    by (auto simp: relay_step_def in_window_def Let_def copied_kind_def split: if_splits)
qed

lemma relay_step_Break_window:
  assumes "relay_step E streams a b st pkt = StepBreak"
    and "0 \<le> stream_index pkt" and "stream_index pkt < int (length streams)"
  shows "\<not> in_window E streams a b pkt"
proof -
  have r: "renormalize E s k st0 pkt \<noteq> StepBreak" for s k st0
    by (simp add: renormalize_def Let_def split: option.splits prod.splits)
  show ?thesis
    using assms r
    by (auto simp: relay_step_def in_window_def Let_def split: if_splits)
qed

lemma split_only_read:
  assumes "EvReadFrame x # ys = pre @ EvReadFrame (Some q) # post"
    and "\<forall>r. EvReadFrame r \<notin> set ys"
  shows "pre = [] \<and> x = Some q \<and> post = ys"
proof (cases pre)
  case Nil
  with assms(1) show ?thesis by simp
next
  case (Cons e pre')
  with assms(1) have "ys = pre' @ EvReadFrame (Some q) # post" by simp
  then have "EvReadFrame (Some q) \<in> set ys" by simp
  with assms(2) show ?thesis by blast
qed

lemma loop_gate:
  assumes "relay_loop E streams a b st n ps = (es, u)"
    and "es = pre @ EvReadFrame (Some q) # post"
    and "stream_index q = video_stream_idx st"
    and "0 \<le> video_stream_idx st" and "video_stream_idx st < int (length streams)"
    and "copied_kind (streams ! nat (video_stream_idx st))"
    and "in_window E streams a b q"
  shows "(\<exists>p ok post'. post = EvWriteFrame p ok # post')
       \<or> (post = [] \<and> u \<noteq> None)
       \<or> (\<not> is_key q \<and> \<not> got_video_keyframe st \<and> emitted_on (video_stream_idx st) pre = [])"
  using assms
proof (induction ps arbitrary: st n es u pre)
  case Nil
  then have "EvReadFrame None # [] = pre @ EvReadFrame (Some q) # post" by simp
  from split_only_read [OF this] show ?case by simp
next
  case (Cons pkt rest)
  note v = Cons.prems(3,4,5,6,7)
  have qv: "0 \<le> stream_index q" "stream_index q < int (length streams)"
    "copied_kind (streams ! nat (stream_index q))"
    using v by simp_all
  show ?case
  proof (cases "relay_step E streams a b st pkt")
    case (StepContinue st')
    then have same: "st' = st" by (rule relay_step_ContinueD)
    obtain es' where l: "relay_loop E streams a b st n rest = (es', u)"
      and e: "es = EvReadFrame (Some pkt) # es'"
      using Cons.prems(1) StepContinue same by (cases "relay_loop E streams a b st n rest") auto
    from e Cons.prems(2) have sp: "EvReadFrame (Some pkt) # es' = pre @ EvReadFrame (Some q) # post"
      by simp
    show ?thesis
    proof (cases pre)
      case Nil
      with sp have q: "pkt = q" by simp
      from relay_step_Continue_gate [OF StepContinue [unfolded q] qv v(5)]
      have "\<not> is_key q \<and> \<not> got_video_keyframe st" by simp
      moreover have "emitted_on (video_stream_idx st) pre = []"
        unfolding Nil by (simp add: emitted_on_def)
      ultimately show ?thesis by blast
    next
      case (Cons x pre')
      with sp have x: "x = EvReadFrame (Some pkt)" and s: "es' = pre' @ EvReadFrame (Some q) # post"
        by simp_all
      have em: "emitted_on (video_stream_idx st) pre = emitted_on (video_stream_idx st) pre'"
        unfolding Cons x by (simp add: emitted_on_def)
      from Cons.IH [OF l s v] show ?thesis unfolding em .
    qed
  next
    case StepBreak
    with Cons.prems(1,2) have "EvReadFrame (Some pkt) # [] = pre @ EvReadFrame (Some q) # post"
      by simp
    from split_only_read [OF this] have q: "pkt = q" by simp
    from relay_step_Break_window [OF StepBreak [unfolded q] qv(1,2)] v(5) show ?thesis by blast
  next
    case (StepWrite st' p)
    note s = relay_step_Write_state [OF StepWrite]
    show ?thesis
    proof (cases "write_frame_ok E n")
      case False
      with Cons.prems(1,2) StepWrite have
        "EvReadFrame (Some pkt) # [EvWriteFrame p False, EvStderr ''Error writing packet'']
           = pre @ EvReadFrame (Some q) # post"
        by simp
      from split_only_read [OF this]
      have "post = [EvWriteFrame p False, EvStderr ''Error writing packet'']" by simp
      then show ?thesis by blast
    next
      case True
      obtain es' where l: "relay_loop E streams a b st' (Suc n) rest = (es', u)"
        and e: "es = EvReadFrame (Some pkt) # EvWriteFrame p True # es'"
        using Cons.prems(1) StepWrite True
        by (cases "relay_loop E streams a b st' (Suc n) rest") auto
      from e Cons.prems(2) have
        sp: "EvReadFrame (Some pkt) # EvWriteFrame p True # es' = pre @ EvReadFrame (Some q) # post"
        by simp
      show ?thesis
      proof (cases pre)
        case Nil
        with sp have "post = EvWriteFrame p True # es'" by simp
        then show ?thesis by blast
      next
        case (Cons x pre1)
        with sp have x: "x = EvReadFrame (Some pkt)"
          and s1: "EvWriteFrame p True # es' = pre1 @ EvReadFrame (Some q) # post" by simp_all
        from s1 obtain pre2 where p1: "pre1 = EvWriteFrame p True # pre2"
          and s2: "es' = pre2 @ EvReadFrame (Some q) # post"
          by (cases pre1) simp_all
        have v': "stream_index q = video_stream_idx st'" "0 \<le> video_stream_idx st'"
          "video_stream_idx st' < int (length streams)"
          "copied_kind (streams ! nat (video_stream_idx st'))"
          using v s(1) by simp_all
        have em: "stream_index pkt \<noteq> video_stream_idx st \<Longrightarrow>
                    emitted_on (video_stream_idx st) pre = emitted_on (video_stream_idx st') pre2"
          unfolding Cons x p1 using s(1,5) by (simp add: emitted_on_def)
        from Cons.IH [OF l s2 v' v(5)]
        show ?thesis
        proof (elim disjE)
          assume c: "\<not> is_key q \<and> \<not> got_video_keyframe st' \<and> emitted_on (video_stream_idx st') pre2 = []"
          with s(4) have g: "\<not> got_video_keyframe st" "stream_index pkt \<noteq> video_stream_idx st"
            by simp_all
          from em [OF g(2)] c g(1) show ?thesis by simp
        next
          assume "\<exists>p ok post'. post = EvWriteFrame p ok # post'"
          then show ?thesis by blast
        next
          assume "post = [] \<and> u \<noteq> None"
          then show ?thesis by blast
        qed
      qed
    qed
  next
    case (StepUndefined x)
    with Cons.prems(1) have e: "es = [EvReadFrame (Some pkt)]" "u = Some x" by simp_all
    with Cons.prems(2) have "EvReadFrame (Some pkt) # [] = pre @ EvReadFrame (Some q) # post"
      by simp
    from split_only_read [OF this] e(2) show ?thesis by simp
  qed
qed

lemma split_middle:
  assumes "xs @ ys @ zs = pre @ x # post" and "x \<notin> set xs" and "x \<notin> set zs"
  shows "\<exists>pre1 post1. pre = xs @ pre1 \<and> ys = pre1 @ x # post1 \<and> post = post1 @ zs"
  using assms
proof (induction xs arbitrary: pre)
  case Nil
  then have "ys @ zs = pre @ x # post" by simp
  then obtain us where "(ys = pre @ us \<and> us @ zs = x # post) \<or> (ys @ us = pre \<and> zs = us @ x # post)"
    unfolding append_eq_append_conv2 by blast
  then show ?case
  proof
    assume a: "ys = pre @ us \<and> us @ zs = x # post"
    show ?thesis
    proof (cases us)
      case Nil
      with a have "zs = x # post" by simp
      with Nil.prems(3) show ?thesis by simp
    next
      case (Cons u us')
      with a have "u = x" "post = us' @ zs" "ys = pre @ x # us'" by simp_all
      then show ?thesis by simp
    qed
  next
    assume "ys @ us = pre \<and> zs = us @ x # post"
    then have "x \<in> set zs" by simp
    with Nil.prems(3) show ?thesis by simp
  qed
next
  case (Cons a xs)
  show ?case
  proof (cases pre)
    case Nil
    with Cons.prems(1) have "a = x" by simp
    with Cons.prems(2) show ?thesis by simp
  next
    case (Cons b pre')
    with Cons.prems(1) have b: "b = a" and r: "xs @ ys @ zs = pre' @ x # post" by simp_all
    from Cons.prems(2) have "x \<notin> set xs" by simp
    from Cons.IH [OF r this Cons.prems(3)] Cons b show ?thesis by simp
  qed
qed

lemma finish_no_read: "EvReadFrame x \<notin> set (finish E s e)"
  by (simp add: finish_def cleanup_def)

lemma setup_primary_copied:
  assumes "setup_streams ok 0 streams trim_init = Some st" and "0 \<le> video_stream_idx st"
  shows "copied_kind (streams ! nat (video_stream_idx st))"
proof (cases "\<exists>s\<in>set streams. is_video s")
  case True
  with setup_video_idx [OF assms(1)] obtain k where "video_stream_idx st = int (0 + k)"
    "is_video (streams ! k)" by auto
  then show ?thesis by (simp add: is_video_def copied_kind_def)
next
  case False
  with setup_video_idx [OF assms(1)] have "video_stream_idx st = - 1" by (simp add: trim_init_def)
  with assms(2) show ?thesis by simp
qed

lemma Trim_gate:
  assumes "Trim E inp outp start_time end_time = (Returned r, tr)"
    and "primary_stream E inp = Some v"
    and "open_input E inp = Opened streams"
    and "fst (parse_time start_time) = Returned a" and "fst (parse_time end_time) = Returned b"
    and "tr = pre @ EvReadFrame (Some q) # post"
    and "stream_index q = v" and "in_window E streams a b q"
  shows "(\<exists>p ok post'. post = EvWriteFrame p ok # post')
       \<or> (\<not> is_key q \<and> emitted_on v pre = [])"
proof -
  have "EvReadFrame (Some q) \<in> set tr" using assms(6) by simp
  with Trim_cases [OF assms(1)] obtain streams' st a' b' pre0 es u where c:
    "open_input E inp = Opened streams'"
    "fst (parse_time start_time) = Returned a'" "fst (parse_time end_time) = Returned b'"
    "setup_streams (new_stream_ok E) 0 streams' trim_init = Some st"
    "0 \<le> video_stream_idx st" "video_stream_idx st < int (length streams')"
    "relay_loop E streams' a' b' st 0 (frames E) = (es, u)"
    "emitted pre0 = []" "\<forall>x. EvReadFrame x \<notin> set pre0"
    "tr = pre0 @ es @ (case u of Some x \<Rightarrow> [] | None \<Rightarrow> finish E start_time end_time)"
    "Returned r = (case u of Some x \<Rightarrow> Undefined x | None \<Rightarrow> Returned 0)"
    by blast
  have e: "streams' = streams" "a' = a" "b' = b" using c(1,2,3) assms(3,4,5) by simp_all
  have u: "u = None" using c(11) by (cases u) simp_all
  have vs: "video_stream_idx st = v"
    using assms(2,3) c(4) e(1) by (simp add: primary_stream_def)
  have ck: "copied_kind (streams ! nat (video_stream_idx st))"
    using setup_primary_copied [OF c(4) c(5)] e(1) by simp
  have "pre0 @ es @ finish E start_time end_time = pre @ EvReadFrame (Some q) # post"
    using c(10) u assms(6) by simp
  from split_middle [OF this] c(9) finish_no_read
  obtain pre1 post1 where s: "pre = pre0 @ pre1" "es = pre1 @ EvReadFrame (Some q) # post1"
    "post = post1 @ finish E start_time end_time" by blast
  have l: "relay_loop E streams a b st 0 (frames E) = (es, u)" using c(7) e by simp
  have g: "\<not> got_video_keyframe st"
    using setup_streams_facts [OF c(4)] by (simp add: trim_init_def)
  have em: "emitted_on v pre = emitted_on v pre1"
    using s(1) c(8) by (simp add: emitted_on_def emitted_append)
  have q: "stream_index q = video_stream_idx st" using assms(7) vs by simp
  have r: "video_stream_idx st < int (length streams)" using c(6) e(1) by simp
  from loop_gate [OF l s(2) q c(5) r ck assms(8)] show ?thesis
  proof (elim disjE)
    assume "\<exists>p ok post'. post1 = EvWriteFrame p ok # post'"
    then obtain p ok post' where "post1 = EvWriteFrame p ok # post'" by blast
    with s(3) have "post = EvWriteFrame p ok # (post' @ finish E start_time end_time)" by simp
    then show ?thesis by blast
  next
    assume "post1 = [] \<and> u \<noteq> None"
    with u show ?thesis by simp
  next
    assume "\<not> is_key q \<and> \<not> got_video_keyframe st \<and> emitted_on (video_stream_idx st) pre1 = []"
    with em vs show ?thesis by simp
  qed
qed

lemma two_video_run_trace:
  "Trim two_video_run ''in.mp4'' ''out.mp4'' ''00:00'' ''01:00'' =
     (Returned 0,
      [EvOpenInput ''in.mp4'' True, EvFindStreamInfo True, EvAllocOutput ''out.mp4'' True,
       EvAvioOpen ''out.mp4'' True, EvWriteHeader True, EvSeekFrame 2 0 True,
       EvReadFrame (Some (packet 0 0 0 0)),
       EvWriteFrame \<lparr>stream_index = 0, pts = 0, dts = 0, duration = 1, flags = 0, pos = - 1\<rparr> True,
       EvReadFrame (Some (packet 2 1 1 1)),
       EvWriteFrame \<lparr>stream_index = 2, pts = 0, dts = 0, duration = 1, flags = 1, pos = - 1\<rparr> True,
       EvReadFrame None, EvWriteTrailer, EvAvioClose, EvFreeContext, EvCloseInput,
       EvStdout ''Successfully trimmed from 00:00 to 01:00''])"
  by (simp add: two_video_run_def parse_time_00_00 parse_time_01_00 run_defs Let_def)

section \<open>Decode time stamps of the primary video stream\<close>

text \<open>
  Claim C3. In every run of \<^verbatim>\<open>Trim\<close> that returns, the defined decode time stamps of the
  packets handed to the writer on the primary video stream, in the order of writing,
  are strictly increasing.
\<close>

theorem video_dts_strictly_increasing:
  assumes "fst (Trim E inp outp start_time end_time) = Returned r"
    and "primary_stream E inp = Some v"
  shows "sorted_wrt (<) (defined_dts (emitted_on v (snd (Trim E inp outp start_time end_time))))"
proof -
  from primary_streamD [OF assms(2)] obtain streams st where
    p: "open_input E inp = Opened streams"
       "setup_streams (new_stream_ok E) 0 streams trim_init = Some st"
       "video_stream_idx st = v" "last_video_dts st = AV_NOPTS_VALUE"
    by blast
  from Trim_emitted [OF p(1,2), of outp start_time end_time] show ?thesis
  proof
    assume "emitted (snd (Trim E inp outp start_time end_time)) = []"
    then show ?thesis by (simp add: emitted_on_def defined_dts_def)
  next
    assume "\<exists>a b. fst (parse_time start_time) = Returned a \<and> fst (parse_time end_time) = Returned b
             \<and> emitted (snd (Trim E inp outp start_time end_time))
                 = emitted (fst (relay_loop E streams a b st 0 (frames E)))"
    then obtain a b where "emitted (snd (Trim E inp outp start_time end_time))
                 = emitted (fst (relay_loop E streams a b st 0 (frames E)))" by blast
    then have "emitted_on v (snd (Trim E inp outp start_time end_time))
                 = emitted_on (video_stream_idx st) (fst (relay_loop E streams a b st 0 (frames E)))"
      using p(3) by (simp add: emitted_on_def)
    with loop_dts_increasing [of st E streams a b 0 "frames E"] p(4) show ?thesis by simp
  qed
qed

theorem video_dts_strictly_increasing_witness:
  "fst (Trim sample_run ''in.mp4'' ''out.mp4'' ''00:00'' ''01:00'') = Returned 0
   \<and> primary_stream sample_run ''in.mp4'' = Some 0
   \<and> defined_dts (emitted_on 0 (snd (Trim sample_run ''in.mp4'' ''out.mp4'' ''00:00'' ''01:00'')))
       = [0, 1, 2]
   \<and> sorted_wrt (<) (defined_dts (emitted_on 0
        (snd (Trim sample_run ''in.mp4'' ''out.mp4'' ''00:00'' ''01:00''))))"
  using video_dts_strictly_increasing [of sample_run "''in.mp4''" "''out.mp4''" "''00:00''" "''01:00''" 0 0]
  by (simp add: sample_run_trace sample_run_primary emitted_on_def defined_dts_def AV_NOPTS_VALUE_def)

section \<open>The keyframe gate\<close>

text \<open>
  Claim C4 says that the first video packet written to the output is a keyframe. The gate
  of line 205 tests \<^verbatim>\<open>stream_idx == video_stream_idx\<close>, and on a source with two video
  streams that index is the second one: a packet of the first video stream that is no
  keyframe is written at once, before any keyframe.
\<close>

theorem first_video_packet_not_keyframe_counterexample:
  "fst (Trim two_video_run ''in.mp4'' ''out.mp4'' ''00:00'' ''01:00'') = Returned 0
   \<and> primary_stream two_video_run ''in.mp4'' = Some 2
   \<and> is_video ([sample_video, sample_audio, sample_video] ! 0)
   \<and> emitted (snd (Trim two_video_run ''in.mp4'' ''out.mp4'' ''00:00'' ''01:00''))
       = [\<lparr>stream_index = 0, pts = 0, dts = 0, duration = 1, flags = 0, pos = - 1\<rparr>,
          \<lparr>stream_index = 2, pts = 0, dts = 0, duration = 1, flags = 1, pos = - 1\<rparr>]
   \<and> \<not> is_key (hd (emitted (snd (Trim two_video_run ''in.mp4'' ''out.mp4'' ''00:00'' ''01:00''))))"
proof -
  have p: "primary_stream two_video_run ''in.mp4'' = Some 2"
    by (simp add: primary_stream_def two_video_run_def run_defs)
  have v: "is_video ([sample_video, sample_audio, sample_video] ! 0)"
    by (simp add: is_video_def sample_video_def)
  show ?thesis
    using p v by (simp add: two_video_run_trace is_key_def AV_PKT_FLAG_KEY_def)
qed

text \<open>
  Claim C4, amended. In every run of \<^verbatim>\<open>Trim\<close> that returns, the first packet written on the
  primary video stream (the stream \<^verbatim>\<open>video_stream_idx\<close> designates) carries the keyframe
  flag, so that no packet of that stream is written before a keyframe of it. The gate
  is this and no more: a packet of the primary stream that is read inside the window is
  handed to the writer, unless it is no keyframe and no packet of the stream has been
  written before it; so once a keyframe has been accepted, every later packet of the
  stream inside the window is written. \<^verbatim>\<open>got_video_keyframe\<close>, once set, stays set through
  every later iteration of the loop, whether it writes or skips.
\<close>

theorem primary_video_gate:
  assumes "fst (Trim E inp outp start_time end_time) = Returned r"
    and "primary_stream E inp = Some v"
  shows "(emitted_on v (snd (Trim E inp outp start_time end_time)) \<noteq> []
            \<longrightarrow> is_key (hd (emitted_on v (snd (Trim E inp outp start_time end_time)))))
       \<and> (\<forall>streams a b pre q post.
            open_input E inp = Opened streams
            \<and> fst (parse_time start_time) = Returned a \<and> fst (parse_time end_time) = Returned b
            \<and> snd (Trim E inp outp start_time end_time) = pre @ EvReadFrame (Some q) # post
            \<and> stream_index q = v \<and> in_window E streams a b q
            \<longrightarrow> (\<exists>p ok post'. post = EvWriteFrame p ok # post')
                \<or> (\<not> is_key q \<and> emitted_on v pre = []))
       \<and> (\<forall>streams a b st pkt st' p. got_video_keyframe st
            \<and> relay_step E streams a b st pkt = StepWrite st' p \<longrightarrow> got_video_keyframe st')
       \<and> (\<forall>streams a b st pkt st'. got_video_keyframe st
            \<and> relay_step E streams a b st pkt = StepContinue st' \<longrightarrow> got_video_keyframe st')"
proof (intro conjI impI allI)
  assume ne: "emitted_on v (snd (Trim E inp outp start_time end_time)) \<noteq> []"
  from primary_streamD [OF assms(2)] obtain streams st where
    p: "open_input E inp = Opened streams"
       "setup_streams (new_stream_ok E) 0 streams trim_init = Some st"
       "video_stream_idx st = v" "\<not> got_video_keyframe st"
    by blast
  from Trim_emitted [OF p(1,2), of outp start_time end_time] ne
  obtain a b where "emitted (snd (Trim E inp outp start_time end_time))
                 = emitted (fst (relay_loop E streams a b st 0 (frames E)))"
    by (auto simp: emitted_on_def)
  then have e: "emitted_on v (snd (Trim E inp outp start_time end_time))
                 = emitted_on (video_stream_idx st) (fst (relay_loop E streams a b st 0 (frames E)))"
    using p(3) by (simp add: emitted_on_def)
  with loop_first_video_key [OF p(4), of E streams a b 0 "frames E"] ne
  show "is_key (hd (emitted_on v (snd (Trim E inp outp start_time end_time))))" by simp
next
  fix streams a b pre q post
  assume a: "open_input E inp = Opened streams
            \<and> fst (parse_time start_time) = Returned a \<and> fst (parse_time end_time) = Returned b
            \<and> snd (Trim E inp outp start_time end_time) = pre @ EvReadFrame (Some q) # post
            \<and> stream_index q = v \<and> in_window E streams a b q"
  have t: "Trim E inp outp start_time end_time = (Returned r, snd (Trim E inp outp start_time end_time))"
    using assms(1) by (cases "Trim E inp outp start_time end_time") simp
  from a Trim_gate [OF t assms(2), of streams a b pre q post]
  show "(\<exists>p ok post'. post = EvWriteFrame p ok # post') \<or> (\<not> is_key q \<and> emitted_on v pre = [])"
    by blast
next
  fix streams a b st pkt st' p
  assume "got_video_keyframe st \<and> relay_step E streams a b st pkt = StepWrite st' p"
  then show "got_video_keyframe st'" using relay_step_Write_state(4) by blast
next
  fix streams a b st pkt st'
  assume "got_video_keyframe st \<and> relay_step E streams a b st pkt = StepContinue st'"
  then show "got_video_keyframe st'" using relay_step_ContinueD by blast
qed

theorem primary_video_gate_witness:
  "fst (Trim sample_run ''in.mp4'' ''out.mp4'' ''00:00'' ''01:00'') = Returned 0
   \<and> primary_stream sample_run ''in.mp4'' = Some 0
   \<and> open_input sample_run ''in.mp4'' = Opened [sample_video, sample_audio]
   \<and> map is_key (emitted_on 0 (snd (Trim sample_run ''in.mp4'' ''out.mp4'' ''00:00'' ''01:00'')))
       = [True, False, False]
   \<and> is_key (hd (emitted_on 0 (snd (Trim sample_run ''in.mp4'' ''out.mp4'' ''00:00'' ''01:00''))))
   \<and> in_window sample_run [sample_video, sample_audio] 0 60 (packet 0 5 5 0)
   \<and> \<not> is_key (packet 0 5 5 0)
   \<and> take 2 (drop 6 (snd (Trim sample_run ''in.mp4'' ''out.mp4'' ''00:00'' ''01:00'')))
       = [EvReadFrame (Some (packet 0 5 5 0)), EvReadFrame (Some (packet 0 6 6 1))]
   \<and> emitted_on 0 (take 6 (snd (Trim sample_run ''in.mp4'' ''out.mp4'' ''00:00'' ''01:00''))) = []
   \<and> in_window sample_run [sample_video, sample_audio] 0 60 (packet 0 8 7 0)
   \<and> \<not> is_key (packet 0 8 7 0)
   \<and> take 2 (drop 13 (snd (Trim sample_run ''in.mp4'' ''out.mp4'' ''00:00'' ''01:00'')))
       = [EvReadFrame (Some (packet 0 8 7 0)),
          EvWriteFrame \<lparr>stream_index = 0, pts = 2, dts = 1, duration = 1, flags = 0, pos = - 1\<rparr> True]"
proof -
  have w: "in_window sample_run [sample_video, sample_audio] 0 60 (packet 0 5 5 0)"
    "in_window sample_run [sample_video, sample_audio] 0 60 (packet 0 8 7 0)"
    by (simp_all add: in_window_def sample_run_def sample_env_def packet_def sample_video_def
          exact_seconds_def AV_NOPTS_VALUE_def)
  have k: "\<not> is_key (packet 0 5 5 0)" "\<not> is_key (packet 0 8 7 0)"
    by (simp_all add: is_key_def packet_def AV_PKT_FLAG_KEY_def)
  have o: "open_input sample_run ''in.mp4'' = Opened [sample_video, sample_audio]"
    by (simp add: sample_run_def sample_env_def)
  have f: "fst (Trim sample_run ''in.mp4'' ''out.mp4'' ''00:00'' ''01:00'') = Returned 0"
    by (simp add: sample_run_trace)
  note t = primary_video_gate [OF f sample_run_primary]
  have h: "is_key (hd (emitted_on 0 (snd (Trim sample_run ''in.mp4'' ''out.mp4'' ''00:00'' ''01:00''))))"
    using t [THEN conjunct1] by (simp add: sample_run_trace emitted_on_def)
  have m: "map is_key (emitted_on 0 (snd (Trim sample_run ''in.mp4'' ''out.mp4'' ''00:00'' ''01:00'')))
       = [True, False, False]"
    by (simp add: sample_run_trace emitted_on_def is_key_def AV_PKT_FLAG_KEY_def)
  have d: "take 2 (drop 6 (snd (Trim sample_run ''in.mp4'' ''out.mp4'' ''00:00'' ''01:00'')))
       = [EvReadFrame (Some (packet 0 5 5 0)), EvReadFrame (Some (packet 0 6 6 1))]"
    "emitted_on 0 (take 6 (snd (Trim sample_run ''in.mp4'' ''out.mp4'' ''00:00'' ''01:00''))) = []"
    "take 2 (drop 13 (snd (Trim sample_run ''in.mp4'' ''out.mp4'' ''00:00'' ''01:00'')))
       = [EvReadFrame (Some (packet 0 8 7 0)),
          EvWriteFrame \<lparr>stream_index = 0, pts = 2, dts = 1, duration = 1, flags = 0, pos = - 1\<rparr> True]"
    by (simp_all add: sample_run_trace emitted_on_def)
  from f sample_run_primary o m h w k d show ?thesis by blast
qed

section \<open>Presentation time against decode time\<close>

text \<open>
  Claim C1 says that every written packet of every copied stream has pts at least dts.
  The repair of lines 232 to 236 is guarded by \<^verbatim>\<open>stream_idx == video_stream_idx\<close>: the
  audio stream of the sample run gets the origin (10, 5) from its first packet, and its
  second packet (12, 11) is written with pts 2 and dts 6.
\<close>

theorem audio_pts_below_dts_counterexample:
  "fst (Trim sample_run ''in.mp4'' ''out.mp4'' ''00:00'' ''01:00'') = Returned 0
   \<and> codec_type (codecpar ([sample_video, sample_audio] ! 1)) = AVMEDIA_TYPE_AUDIO
   \<and> emitted_on 1 (snd (Trim sample_run ''in.mp4'' ''out.mp4'' ''00:00'' ''01:00''))
       = [\<lparr>stream_index = 1, pts = 0, dts = 0, duration = 1, flags = 0, pos = - 1\<rparr>,
          \<lparr>stream_index = 1, pts = 2, dts = 6, duration = 1, flags = 0, pos = - 1\<rparr>]
   \<and> pts (emitted_on 1 (snd (Trim sample_run ''in.mp4'' ''out.mp4'' ''00:00'' ''01:00'')) ! 1)
       \<noteq> AV_NOPTS_VALUE
   \<and> dts (emitted_on 1 (snd (Trim sample_run ''in.mp4'' ''out.mp4'' ''00:00'' ''01:00'')) ! 1)
       \<noteq> AV_NOPTS_VALUE
   \<and> pts (emitted_on 1 (snd (Trim sample_run ''in.mp4'' ''out.mp4'' ''00:00'' ''01:00'')) ! 1)
       < dts (emitted_on 1 (snd (Trim sample_run ''in.mp4'' ''out.mp4'' ''00:00'' ''01:00'')) ! 1)"
  by (simp add: sample_run_trace emitted_on_def sample_audio_def AV_NOPTS_VALUE_def)

text \<open>
  Claim C1, amended. For the primary video stream the property holds: in every run that
  returns, each packet written on that stream whose pts and dts are both defined has
  pts at least dts.
\<close>

theorem primary_video_pts_ge_dts:
  assumes "fst (Trim E inp outp start_time end_time) = Returned r"
    and "primary_stream E inp = Some v"
  shows "\<forall>p\<in>set (emitted_on v (snd (Trim E inp outp start_time end_time))).
           pts p \<noteq> AV_NOPTS_VALUE \<longrightarrow> dts p \<noteq> AV_NOPTS_VALUE \<longrightarrow> pts p \<ge> dts p"
proof -
  from primary_streamD [OF assms(2)] obtain streams st where
    p: "open_input E inp = Opened streams"
       "setup_streams (new_stream_ok E) 0 streams trim_init = Some st"
       "video_stream_idx st = v"
    by blast
  from Trim_emitted [OF p(1,2), of outp start_time end_time] show ?thesis
  proof
    assume "emitted (snd (Trim E inp outp start_time end_time)) = []"
    then show ?thesis by (simp add: emitted_on_def)
  next
    assume "\<exists>a b. fst (parse_time start_time) = Returned a \<and> fst (parse_time end_time) = Returned b
             \<and> emitted (snd (Trim E inp outp start_time end_time))
                 = emitted (fst (relay_loop E streams a b st 0 (frames E)))"
    then obtain a b where "emitted (snd (Trim E inp outp start_time end_time))
                 = emitted (fst (relay_loop E streams a b st 0 (frames E)))" by blast
    then have "emitted_on v (snd (Trim E inp outp start_time end_time))
                 = emitted_on (video_stream_idx st) (fst (relay_loop E streams a b st 0 (frames E)))"
      using p(3) by (simp add: emitted_on_def)
    with loop_pts_ge_dts [of st E streams a b 0 "frames E"] show ?thesis by simp
  qed
qed

theorem primary_video_pts_ge_dts_witness:
  "fst (Trim sample_run ''in.mp4'' ''out.mp4'' ''00:00'' ''01:00'') = Returned 0
   \<and> primary_stream sample_run ''in.mp4'' = Some 0
   \<and> emitted_on 0 (snd (Trim sample_run ''in.mp4'' ''out.mp4'' ''00:00'' ''01:00''))
       = [\<lparr>stream_index = 0, pts = 0, dts = 0, duration = 1, flags = 1, pos = - 1\<rparr>,
          \<lparr>stream_index = 0, pts = 2, dts = 1, duration = 1, flags = 0, pos = - 1\<rparr>,
          \<lparr>stream_index = 0, pts = 2, dts = 2, duration = 1, flags = 0, pos = - 1\<rparr>]
   \<and> list_all (\<lambda>p. pts p \<noteq> AV_NOPTS_VALUE \<and> dts p \<noteq> AV_NOPTS_VALUE \<and> pts p \<ge> dts p)
        (emitted_on 0 (snd (Trim sample_run ''in.mp4'' ''out.mp4'' ''00:00'' ''01:00'')))"
  using primary_video_pts_ge_dts [of sample_run "''in.mp4''" "''out.mp4''" "''00:00''" "''01:00''" 0 0]
  by (simp add: sample_run_trace sample_run_primary emitted_on_def AV_NOPTS_VALUE_def)

section \<open>The trailer\<close>

text \<open>
  Claim C2. Whenever \<^verbatim>\<open>Trim\<close> returns after the loop has read at all (the loop ended at
  the end of input, at the break of the window test or at a failed write), it returns 0
  and its trace ends with the trailer, written once and after every event of the loop,
  then the events of \<^verbatim>\<open>cleanup\<close> and the message of success.
\<close>

theorem trailer_written_on_every_loop_exit:
  assumes "fst (Trim E inp outp start_time end_time) = Returned r"
    and "EvReadFrame x \<in> set (snd (Trim E inp outp start_time end_time))"
  shows "r = 0 \<and> (\<exists>pre. EvWriteTrailer \<notin> set pre
           \<and> snd (Trim E inp outp start_time end_time)
               = pre @ [EvWriteTrailer] @ cleanup E True (Some True)
                 @ [EvStdout (''Successfully trimmed from '' @ start_time @ '' to '' @ end_time)])"
proof -
  obtain oc tr where t: "Trim E inp outp start_time end_time = (oc, tr)"
    by (cases "Trim E inp outp start_time end_time")
  with assms have o: "oc = Returned r" and x: "EvReadFrame x \<in> set tr" by simp_all
  have nt: "EvWriteTrailer \<notin> set (fst (relay_loop E streams a b st n ps))" for streams a b st n ps
  proof (induction ps arbitrary: st n)
    case Nil
    show ?case by simp
  next
    case (Cons pkt rest)
    show ?case using Cons.IH by (cases "relay_step E streams a b st pkt") auto
  qed
  from Trim_cases [OF t] x obtain streams st a b pre es u where c:
    "relay_loop E streams a b st 0 (frames E) = (es, u)"
    "tr = pre @ es @ (case u of Some x \<Rightarrow> [] | None \<Rightarrow> finish E start_time end_time)"
    "oc = (case u of Some x \<Rightarrow> Undefined x | None \<Rightarrow> Returned 0)"
    "open_input E inp = Opened streams" "fst (parse_time start_time) = Returned a"
    "fst (parse_time end_time) = Returned b"
    "setup_streams (new_stream_ok E) 0 streams trim_init = Some st"
    "emitted pre = []" "\<forall>x. EvReadFrame x \<notin> set pre" "EvWriteTrailer \<notin> set pre"
    by blast
  from c(3) o have u: "u = None" and r: "r = 0" by (cases u; simp)+
  note pre_nt = c(10)
  have "EvWriteTrailer \<notin> set es" using nt [of streams a b st 0 "frames E"] c(1) by simp
  with pre_nt have "EvWriteTrailer \<notin> set (pre @ es)" by simp
  moreover have "tr = (pre @ es) @ [EvWriteTrailer] @ cleanup E True (Some True)
                 @ [EvStdout (''Successfully trimmed from '' @ start_time @ '' to '' @ end_time)]"
    using c(2) u by (simp add: finish_def)
  ultimately show ?thesis using r t by auto
qed


theorem trailer_written_on_every_loop_exit_witness:
  "fst (Trim (failing_env [sample_video, sample_audio] sample_packets)
          ''in.mp4'' ''out.mp4'' ''00:00'' ''01:00'') = Returned 0
   \<and> snd (Trim (failing_env [sample_video, sample_audio] sample_packets)
          ''in.mp4'' ''out.mp4'' ''00:00'' ''01:00'')
       = [EvOpenInput ''in.mp4'' True, EvFindStreamInfo True, EvAllocOutput ''out.mp4'' True,
          EvAvioOpen ''out.mp4'' True, EvWriteHeader True, EvSeekFrame 0 0 True,
          EvReadFrame (Some (packet 0 5 5 0)),
          EvReadFrame (Some (packet 0 6 6 1)),
          EvWriteFrame \<lparr>stream_index = 0, pts = 0, dts = 0, duration = 1, flags = 1, pos = - 1\<rparr> True,
          EvReadFrame (Some (packet 1 10 5 0)),
          EvWriteFrame \<lparr>stream_index = 1, pts = 0, dts = 0, duration = 1, flags = 0, pos = - 1\<rparr> False,
          EvStderr ''Error writing packet'',
          EvWriteTrailer, EvAvioClose, EvFreeContext, EvCloseInput,
          EvStdout ''Successfully trimmed from 00:00 to 01:00'']"
  using trailer_written_on_every_loop_exit
    [of "failing_env [sample_video, sample_audio] sample_packets" "''in.mp4''" "''out.mp4''"
        "''00:00''" "''01:00''" 0 "Some (packet 0 5 5 0)"]
  by (simp add: sample_packets_def parse_time_00_00 parse_time_01_00 run_defs)

section \<open>The primary stream\<close>

text \<open>
  Claim C6 says that the primary stream is the first video stream of the source. Line 146
  assigns \<^verbatim>\<open>video_stream_idx\<close> at every video stream, so a later one replaces an earlier
  one: with video streams at the indices 0 and 2 the primary stream is 2.
\<close>

theorem primary_is_last_video_counterexample:
  "primary_stream (sample_env [sample_video, sample_audio, sample_video] []) ''in.mp4'' = Some 2
   \<and> is_video ([sample_video, sample_audio, sample_video] ! 0)"
  by (simp add: primary_stream_def is_video_def run_defs)

text \<open>
  Claim C6, amended. For a source with at least one video stream, the primary stream is
  the last video stream of the stream list: a video stream with no video stream behind
  it. It is the first one exactly when the source has a single video stream.
\<close>

theorem primary_is_last_video:
  assumes "open_input E inp = Opened streams"
    and "primary_stream E inp = Some v"
    and "\<exists>s\<in>set streams. is_video s"
  shows "0 \<le> v \<and> nat v < length streams \<and> is_video (streams ! nat v)
       \<and> (\<forall>j. nat v < j \<and> j < length streams \<longrightarrow> \<not> is_video (streams ! j))
       \<and> ((\<forall>j. j < nat v \<longrightarrow> \<not> is_video (streams ! j))
            \<longrightarrow> (\<forall>j. j < length streams \<and> is_video (streams ! j) \<longrightarrow> j = nat v))"
proof -
  from assms(1,2) obtain st where s: "setup_streams (new_stream_ok E) 0 streams trim_init = Some st"
    and v: "video_stream_idx st = v"
    by (auto simp: primary_stream_def)
  from setup_video_idx [OF s] assms(3) obtain k where
    k: "k < length streams" "video_stream_idx st = int (0 + k)" "is_video (streams ! k)"
       "\<forall>j. k < j \<and> j < length streams \<longrightarrow> \<not> is_video (streams ! j)"
    by auto
  from k(2) v have "nat v = k" "0 \<le> v" by simp_all
  with k show ?thesis by (metis linorder_neqE_nat)
qed

theorem primary_is_last_video_witness:
  "open_input (sample_env [sample_video, sample_audio, sample_video] []) ''in.mp4''
     = Opened [sample_video, sample_audio, sample_video]
   \<and> primary_stream (sample_env [sample_video, sample_audio, sample_video] []) ''in.mp4'' = Some 2
   \<and> is_video ([sample_video, sample_audio, sample_video] ! 2)
   \<and> \<not> is_video ([sample_video, sample_audio, sample_video] ! 1)"
  using primary_is_last_video
    [of "sample_env [sample_video, sample_audio, sample_video] []" "''in.mp4''"
        "[sample_video, sample_audio, sample_video]" 2]
  by (simp add: primary_stream_def is_video_def run_defs)

section \<open>A source without a video stream\<close>

text \<open>
  Claim C7. On a source whose only stream is audio, \<^verbatim>\<open>video_stream_idx\<close> is still -1 when
  the seek target is computed, and line 168 reads \<^verbatim>\<open>in->streams[-1]\<close>: the run ends in
  an access outside the stream array, after the header and before any seek or packet.
\<close>

theorem no_video_stream_seek_reads_out_of_bounds:
  "Trim (sample_env [sample_audio] [packet 0 0 0 1]) ''in.mp4'' ''out.mp4'' ''00:00'' ''00:10''
     = (Undefined OutOfBounds,
        [EvOpenInput ''in.mp4'' True, EvFindStreamInfo True, EvAllocOutput ''out.mp4'' True,
         EvAvioOpen ''out.mp4'' True, EvWriteHeader True])"
  by (simp add: parse_time_00_00 parse_time_00_10 run_defs)

text \<open>
  The same holds for every source without a video stream: no run on it returns 0, and
  none reads a packet.
\<close>

lemma no_video_stream_never_relays:
  assumes "open_input E inp = Opened streams" and "\<not> (\<exists>s\<in>set streams. is_video s)"
  shows "fst (Trim E inp outp start_time end_time) \<noteq> Returned 0
       \<and> (\<forall>x. EvReadFrame x \<notin> set (snd (Trim E inp outp start_time end_time)))"
proof -
  obtain oc tr where t: "Trim E inp outp start_time end_time = (oc, tr)"
    by (cases "Trim E inp outp start_time end_time")
  have "\<not> (\<exists>st. setup_streams (new_stream_ok E) 0 streams trim_init = Some st
              \<and> 0 \<le> video_stream_idx st)"
  proof
    assume "\<exists>st. setup_streams (new_stream_ok E) 0 streams trim_init = Some st
              \<and> 0 \<le> video_stream_idx st"
    then obtain st where s: "setup_streams (new_stream_ok E) 0 streams trim_init = Some st"
      and v: "0 \<le> video_stream_idx st" by blast
    from setup_video_idx [OF s] assms(2) have "video_stream_idx st = - 1"
      by (simp add: trim_init_def)
    with v show False by simp
  qed
  with Trim_cases [OF t] assms(1) t show ?thesis by fastforce
qed

section \<open>The window is checked before anything is opened\<close>

text \<open>
  Claim C9. When both time strings parse and the start is not before the end, \<^verbatim>\<open>Trim\<close>
  returns 1 and its whole trace is the message on the error channel: the input is not
  opened, no output context is allocated, no file is opened. \<^verbatim>\<open>Create\<close> makes the
  same test on the configured integers, as its \<^verbatim>\<open>int\<close> variables hold them, before it
  reads the paths or calls \<^verbatim>\<open>Trim\<close>.
\<close>

theorem invalid_window_fails_before_open:
  "(fst (parse_time start_time) = Returned start_sec \<and> fst (parse_time end_time) = Returned end_sec
      \<and> start_sec \<ge> end_sec
    \<longrightarrow> Trim E inp outp start_time end_time
          = (Returned 1, [EvStderr ''Error: start must be before end'']))
   \<and> (narrow_int (cfg_start cfg) \<ge> narrow_int (cfg_end cfg)
    \<longrightarrow> Create E cfg = (Returned VLC_EGENERIC, [EvMsgErr ''Invalid start and end times'']))"
proof (intro conjI impI)
  assume a: "fst (parse_time start_time) = Returned start_sec \<and>
    fst (parse_time end_time) = Returned end_sec \<and> start_sec \<ge> end_sec"
  obtain es1 es2 where p: "parse_time start_time = (Returned start_sec, es1)"
    "parse_time end_time = (Returned end_sec, es2)"
    using a by (metis prod.collapse)
  then have "es1 = []" "es2 = []" by (auto dest: parse_time_Returned_events)
  with p a show "Trim E inp outp start_time end_time
          = (Returned 1, [EvStderr ''Error: start must be before end''])"
    by (simp add: Trim_def)
next
  assume "narrow_int (cfg_start cfg) \<ge> narrow_int (cfg_end cfg)"
  then show "Create E cfg = (Returned VLC_EGENERIC, [EvMsgErr ''Invalid start and end times''])"
    by (simp add: Create_def)
qed

theorem invalid_window_fails_before_open_witness:
  "Trim (sample_env [] []) ''in.mp4'' ''out.mp4'' ''00:30'' ''00:10''
     = (Returned 1, [EvStderr ''Error: start must be before end''])
   \<and> narrow_int 30 = 30 \<and> narrow_int 10 = 10
   \<and> Create (sample_env [] [])
       \<lparr>cfg_start = 30, cfg_end = 10, cfg_input = Some ''in.mp4'', cfg_output = Some ''out.mp4''\<rparr>
     = (Returned VLC_EGENERIC, [EvMsgErr ''Invalid start and end times''])"
  using invalid_window_fails_before_open
    [where start_time = "''00:30''" and start_sec = 30 and end_time = "''00:10''" and end_sec = 10
       and cfg = "\<lparr>cfg_start = 30, cfg_end = 10, cfg_input = Some ''in.mp4'',
                   cfg_output = Some ''out.mp4''\<rparr>"
       and E = "sample_env [] []" and inp = "''in.mp4''" and outp = "''out.mp4''"]
  by (simp add: parse_time_00_30 parse_time_00_10 narrow_int_def)

text \<open>
  Inside the range of an \<^verbatim>\<open>int\<close> the stored value is the configured one. Outside it is
  not: a configured start of \<open>2 ^ 32\<close> is stored as 0, passes the test against an end of 10
  and reaches \<^verbatim>\<open>Trim\<close> as the window from 00:00 to 00:10.
\<close>

lemma narrow_int_id: "in_int32 x \<Longrightarrow> narrow_int x = x"
  by (simp add: in_int32_def narrow_int_def)

lemma Create_in_range:
  assumes "in_int32 (cfg_start cfg)" and "in_int32 (cfg_end cfg)" and "cfg_start cfg \<ge> cfg_end cfg"
  shows "Create E cfg = (Returned VLC_EGENERIC, [EvMsgErr ''Invalid start and end times''])"
  using assms by (simp add: Create_def narrow_int_id)

lemma Create_narrows_configuration:
  "narrow_int 4294967296 = 0
   \<and> format_mm_ss 0 = ''00:00'' \<and> format_mm_ss 10 = ''00:10''
   \<and> Create (sample_env [sample_video] [])
       \<lparr>cfg_start = 4294967296, cfg_end = 10, cfg_input = Some ''in.mp4'',
        cfg_output = Some ''out.mp4''\<rparr>
     = (Returned VLC_SUCCESS,
        [EvOpenInput ''in.mp4'' True, EvFindStreamInfo True, EvAllocOutput ''out.mp4'' True,
         EvAvioOpen ''out.mp4'' True, EvWriteHeader True, EvSeekFrame 0 0 True,
         EvReadFrame None, EvWriteTrailer, EvAvioClose, EvFreeContext, EvCloseInput,
         EvStdout ''Successfully trimmed from 00:00 to 00:10'',
         EvMsgInfo ''Video trimmed successfully''])"
proof -
  have n: "narrow_int 4294967296 = 0" "narrow_int 10 = 10" by (simp_all add: narrow_int_def)
  have f: "format_mm_ss 0 = ''00:00''" "format_mm_ss 10 = ''00:10''"
    by (simp_all add: format_mm_ss_def fmt_02d_def c_div_def c_mod_def)
  have t: "Trim (sample_env [sample_video] []) ''in.mp4'' ''out.mp4'' ''00:00'' ''00:10''
     = (Returned 0,
        [EvOpenInput ''in.mp4'' True, EvFindStreamInfo True, EvAllocOutput ''out.mp4'' True,
         EvAvioOpen ''out.mp4'' True, EvWriteHeader True, EvSeekFrame 0 0 True,
         EvReadFrame None, EvWriteTrailer, EvAvioClose, EvFreeContext, EvCloseInput,
         EvStdout ''Successfully trimmed from 00:00 to 00:10''])"
    by (simp add: parse_time_00_00 parse_time_00_10 run_defs)
  show ?thesis using n f t by (simp add: Create_def VLC_SUCCESS_def)
qed

section \<open>The origin of a stream\<close>

text \<open>
  Claim C5 says that the origin of a stream is captured exactly once and that the first
  written packet of every copied stream has pts 0 and dts 0. The capture of line 213
  tests \<^verbatim>\<open>start_pts\<close> alone and stores the pts and dts of the packet as they are: the
  first audio packet of this run has no pts, is written with an undefined pts, and the
  second packet, 10 ticks later in decode time, is written with dts 0 again, from an
  origin captured a second time.
\<close>

theorem first_packet_undefined_pts_counterexample:
  "fst (Trim undefined_pts_run ''in.mp4'' ''out.mp4'' ''00:00'' ''01:00'') = Returned 0
   \<and> relayed_on 1 (snd (Trim undefined_pts_run ''in.mp4'' ''out.mp4'' ''00:00'' ''01:00''))
       = [(packet 1 AV_NOPTS_VALUE 10 0,
           \<lparr>stream_index = 1, pts = AV_NOPTS_VALUE, dts = 0, duration = 1, flags = 0, pos = - 1\<rparr>),
          (packet 1 AV_NOPTS_VALUE 20 0,
           \<lparr>stream_index = 1, pts = AV_NOPTS_VALUE, dts = 0, duration = 1, flags = 0, pos = - 1\<rparr>)]
   \<and> pts (snd (hd (relayed_on 1
         (snd (Trim undefined_pts_run ''in.mp4'' ''out.mp4'' ''00:00'' ''01:00''))))) \<noteq> 0
   \<and> dts (snd (relayed_on 1
         (snd (Trim undefined_pts_run ''in.mp4'' ''out.mp4'' ''00:00'' ''01:00'')) ! 1))
       \<noteq> dts (packet 1 AV_NOPTS_VALUE 20 0) - dts (packet 1 AV_NOPTS_VALUE 10 0)"
  by (simp add: undefined_pts_run_trace relayed_on_def relayed_def packet_def AV_NOPTS_VALUE_def)

text \<open>
  Claim C5, amended. In every run that returns, the first packet written on a stream has
  pts 0 when the packet read carries a pts and dts 0 when it carries a dts, an undefined
  time stamp staying undefined; and when that first packet carries a pts, its pts and dts
  are the origin of every later packet of the stream: a defined pts is written as pts
  minus the origin and, when the first packet carried a dts, a defined dts as dts minus
  the origin (on the primary video stream the written values are at least these, the
  two repairs raising them).
\<close>

theorem first_packet_at_origin:
  assumes "fst (Trim E inp outp start_time end_time) = Returned r"
    and "primary_stream E inp = Some v"
    and "relayed_on k (snd (Trim E inp outp start_time end_time)) = qp # rest"
  shows "first_at_zero qp
       \<and> (pts (fst qp) \<noteq> AV_NOPTS_VALUE \<longrightarrow>
            list_all (origin_applied (k = v) (pts (fst qp)) (dts (fst qp))) rest)"
proof -
  from primary_streamD [OF assms(2)] obtain streams st where
    p: "open_input E inp = Opened streams"
       "setup_streams (new_stream_ok E) 0 streams trim_init = Some st"
       "video_stream_idx st = v" "last_video_dts st = AV_NOPTS_VALUE"
    by blast
  from Trim_relayed [OF p(1,2), of outp start_time end_time] assms(3)
  obtain a b where e: "relayed (snd (Trim E inp outp start_time end_time))
                 = relayed (fst (relay_loop E streams a b st 0 (frames E)))"
    by (auto simp: relayed_on_def)
  let ?ws = "relayed (fst (relay_loop E streams a b st 0 (frames E)))"
  have on: "filter (\<lambda>(q, p). stream_index q = k) ?ws = qp # rest"
    using assms(3) e by (simp add: relayed_on_def)
  then have "qp \<in> set (filter (\<lambda>(q, p). stream_index q = k) ?ws)" by simp
  then have "qp \<in> set ?ws" and kq: "stream_index (fst qp) = k"
    by (auto split: prod.splits)
  moreover have "list_all (routed E streams (out_streams st)) ?ws"
    using loop_routed [of E streams st None a b 0 "frames E"] by (simp add: relayed_def)
  ultimately have "routed E streams (out_streams st) qp" by (simp add: list_all_iff)
  with kq have k: "0 \<le> k" "nat k < length streams"
    by (auto simp: routed_def split: prod.splits)
  from setup_streams_facts [OF p(2)] have
    len: "length (stream_ctx st) = length streams" and
    sub: "set (stream_ctx st) \<subseteq> {c. start_pts c = AV_NOPTS_VALUE}"
    by (simp_all add: trim_init_def)
  have "nat k < length (stream_ctx st)" using k(2) len by simp
  then have "stream_ctx st ! nat k \<in> set (stream_ctx st)" by (rule nth_mem)
  with sub have u: "start_pts (stream_ctx st ! nat k) = AV_NOPTS_VALUE" by auto
  from loop_origin [OF k(1), of st None E streams a b 0 "frames E"] u p(3,4) on
  show ?thesis by (simp add: relayed_def)
qed

theorem first_packet_at_origin_witness:
  "fst (Trim sample_run ''in.mp4'' ''out.mp4'' ''00:00'' ''01:00'') = Returned 0
   \<and> primary_stream sample_run ''in.mp4'' = Some 0
   \<and> relayed_on 1 (snd (Trim sample_run ''in.mp4'' ''out.mp4'' ''00:00'' ''01:00''))
       = [(packet 1 10 5 0,
           \<lparr>stream_index = 1, pts = 0, dts = 0, duration = 1, flags = 0, pos = - 1\<rparr>),
          (packet 1 12 11 0,
           \<lparr>stream_index = 1, pts = 2, dts = 6, duration = 1, flags = 0, pos = - 1\<rparr>)]
   \<and> first_at_zero (packet 1 10 5 0,
           \<lparr>stream_index = 1, pts = 0, dts = 0, duration = 1, flags = 0, pos = - 1\<rparr>)
   \<and> pts (packet 1 10 5 0) \<noteq> AV_NOPTS_VALUE
   \<and> list_all (origin_applied False 10 5)
        [(packet 1 12 11 0,
           \<lparr>stream_index = 1, pts = 2, dts = 6, duration = 1, flags = 0, pos = - 1\<rparr>)]"
  using first_packet_at_origin [of sample_run "''in.mp4''" "''out.mp4''" "''00:00''" "''01:00''" 0 0 1
      "(packet 1 10 5 0,
           \<lparr>stream_index = 1, pts = 0, dts = 0, duration = 1, flags = 0, pos = - 1\<rparr>)"
      "[(packet 1 12 11 0,
           \<lparr>stream_index = 1, pts = 2, dts = 6, duration = 1, flags = 0, pos = - 1\<rparr>)]"]
  by (simp add: sample_run_trace sample_run_primary relayed_on_def relayed_def packet_def
        AV_NOPTS_VALUE_def)

section \<open>The time parser\<close>

text \<open>
  Claim C8 says that a malformed string is an error result that leaves the process
  running, that exactly the strings of two integer fields are accepted, and that the
  result is never negative. \<^verbatim>\<open>parse_time\<close> calls \<^verbatim>\<open>exit(1)\<close>; \<^verbatim>\<open>sscanf\<close> reads signs and
  ignores what follows the second number.
\<close>

theorem parse_time_accepts_more_counterexample:
  "parse_time ''10'' = (Exited 1, [EvStderr ''Invalid time format (use mm:ss)''])
   \<and> parse_time ''-1:00'' = (Returned (- 60), [])
   \<and> parse_time ''1:2:3'' = (Returned 62, [])"
  by (simp add: scan_defs)

text \<open>
  Claim C8, amended. \<^verbatim>\<open>parse_time\<close> prints the message and ends the process with
  \<^verbatim>\<open>exit(1)\<close> exactly when \<^verbatim>\<open>sscanf\<close> does not convert two fields, which is so for every
  string without a colon; for every string of two non-empty runs of decimal digits
  separated by a colon, whose value fits an \<^verbatim>\<open>int\<close>, it returns 60 times the first
  number plus the second, which is not negative.
\<close>

theorem parse_time_mm_ss:
  "(parse_time str = (Exited 1, [EvStderr ''Invalid time format (use mm:ss)''])
      \<longleftrightarrow> (\<forall>m s. sscanf_d_colon_d str \<noteq> Scan2 m s))
   \<and> (CHR '':'' \<notin> set str \<longrightarrow>
      parse_time str = (Exited 1, [EvStderr ''Invalid time format (use mm:ss)'']))
   \<and> (mm \<noteq> [] \<and> ss \<noteq> [] \<and> list_all isdigit mm \<and> list_all isdigit ss
        \<and> in_int32 (decimal mm * 60 + decimal ss) \<longrightarrow>
      parse_time (mm @ '':'' @ ss) = (Returned (decimal mm * 60 + decimal ss), [])
      \<and> 0 \<le> decimal mm * 60 + decimal ss)"
proof (intro conjI impI)
  show "parse_time str = (Exited 1, [EvStderr ''Invalid time format (use mm:ss)''])
      \<longleftrightarrow> (\<forall>m s. sscanf_d_colon_d str \<noteq> Scan2 m s)"
    by (cases "sscanf_d_colon_d str") (simp_all add: parse_time_def)
next
  assume "CHR '':'' \<notin> set str"
  from no_colon_no_second_field [OF this]
  show "parse_time str = (Exited 1, [EvStderr ''Invalid time format (use mm:ss)''])"
    by (cases "sscanf_d_colon_d str") (simp_all add: parse_time_def)
next
  assume a: "mm \<noteq> [] \<and> ss \<noteq> [] \<and> list_all isdigit mm \<and> list_all isdigit ss
        \<and> in_int32 (decimal mm * 60 + decimal ss)"
  then have m: "0 \<le> decimal mm" and s: "0 \<le> decimal ss" by (simp_all add: decimal_nonneg)
  then show "0 \<le> decimal mm * 60 + decimal ss" by simp
  have "\<not> isdigit (CHR '':'')" by (simp add: isdigit_def)
  then have 1: "scan_d (mm @ '':'' @ ss) = Some (decimal mm, '':'' @ ss)"
    using a scan_d_digits [of mm "'':'' @ ss"] by simp
  have 2: "scan_d ss = Some (decimal ss, [])"
    using a scan_d_digits [of ss "[]"] by simp
  from a obtain d ds where "mm = d # ds" "isdigit d" by (cases mm) auto
  then have 3: "dropWhile isspace (mm @ '':'' @ ss) \<noteq> []"
    by (simp add: isdigit_not_isspace)
  have sc: "sscanf_d_colon_d (mm @ '':'' @ ss) = Scan2 (decimal mm) (decimal ss)"
    using 1 2 3 by (simp add: sscanf_d_colon_d_def)
  have "in_int32 (decimal mm)" "in_int32 (decimal ss)" "in_int32 (decimal mm * 60)"
    using a m s by (simp_all add: in_int32_def)
  with a sc show "parse_time (mm @ '':'' @ ss) = (Returned (decimal mm * 60 + decimal ss), [])"
    by (simp add: parse_time_def)
qed

theorem parse_time_mm_ss_witness:
  "CHR '':'' \<notin> set ''10''
   \<and> parse_time ''10'' = (Exited 1, [EvStderr ''Invalid time format (use mm:ss)''])
   \<and> list_all isdigit ''10'' \<and> list_all isdigit ''05'' \<and> decimal ''10'' * 60 + decimal ''05'' = 605
   \<and> parse_time (''10'' @ '':'' @ ''05'') = (Returned 605, [])"
  using parse_time_mm_ss [of "''10''" "''10''" "''05''"]
  by (simp add: decimal_def isdigit_def digit_val_def in_int32_def)

section \<open>Routing by the source stream index\<close>

text \<open>
  Claim C10. On a source whose audio and video streams come before every other stream,
  each written packet keeps the stream index of the packet read, that index is inside
  the stream array of the output, the output stream of that index is the one created
  from the source stream of the same index, and the duration is rescaled between the
  time bases of these two streams; and when every packet read carries an index of a
  source stream and the source has a video stream, no run ends in an access outside an
  array.
\<close>

theorem packets_routed_by_source_index:
  assumes "open_input E inp = Opened streams"
    and "output_streams E inp = Some outs"
    and "copied_prefix streams"
  shows "list_all (\<lambda>qp. routed E streams outs qp
                      \<and> outs ! nat (stream_index (fst qp))
                          = new_out_stream (streams ! nat (stream_index (fst qp))))
           (relayed (snd (Trim E inp outp start_time end_time)))
       \<and> ((\<forall>q\<in>set (frames E). 0 \<le> stream_index q \<and> stream_index q < int (length streams))
            \<and> (\<exists>s\<in>set streams. is_video s)
          \<longrightarrow> fst (Trim E inp outp start_time end_time) \<noteq> Undefined OutOfBounds)"
proof (intro conjI impI)
  from assms(1,2) obtain st where st: "setup_streams (new_stream_ok E) 0 streams trim_init = Some st"
    and outs: "out_streams st = outs"
    by (auto simp: output_streams_def)
  let ?good = "\<lambda>qp. routed E streams outs qp
                      \<and> outs ! nat (stream_index (fst qp))
                          = new_out_stream (streams ! nat (stream_index (fst qp)))"
  have g: "?good qp" if "routed E streams outs qp" for qp
  proof -
    from that have "nat (stream_index (fst qp)) < length streams"
      "copied_kind (streams ! nat (stream_index (fst qp)))"
      by (auto simp: routed_def split: prod.splits)
    from setup_out_streams_prefix [OF st assms(3) this] outs that show ?thesis by simp
  qed
  from Trim_relayed [OF assms(1) st, of outp start_time end_time]
  show "list_all ?good (relayed (snd (Trim E inp outp start_time end_time)))"
  proof
    assume "relayed (snd (Trim E inp outp start_time end_time)) = []"
    then show ?thesis by simp
  next
    assume "\<exists>a b. fst (parse_time start_time) = Returned a \<and> fst (parse_time end_time) = Returned b
             \<and> relayed (snd (Trim E inp outp start_time end_time))
                 = relayed (fst (relay_loop E streams a b st 0 (frames E)))"
    then obtain a b where e: "relayed (snd (Trim E inp outp start_time end_time))
                 = relayed (fst (relay_loop E streams a b st 0 (frames E)))" by blast
    have "list_all (routed E streams outs) (relayed (fst (relay_loop E streams a b st 0 (frames E))))"
      using loop_routed [of E streams st None a b 0 "frames E"] outs by (simp add: relayed_def)
    then have "list_all ?good (relayed (fst (relay_loop E streams a b st 0 (frames E))))"
      unfolding list_all_iff using g by blast
    with e show ?thesis by simp
  qed
next
  assume a: "(\<forall>q\<in>set (frames E). 0 \<le> stream_index q \<and> stream_index q < int (length streams))
            \<and> (\<exists>s\<in>set streams. is_video s)"
  from assms(1,2) obtain st where st: "setup_streams (new_stream_ok E) 0 streams trim_init = Some st"
    by (auto simp: output_streams_def)
  show "fst (Trim E inp outp start_time end_time) \<noteq> Undefined OutOfBounds"
  proof
    assume "fst (Trim E inp outp start_time end_time) = Undefined OutOfBounds"
    from Trim_out_of_bounds [OF this] assms(1) st obtain a b where
      c: "\<not> (0 \<le> video_stream_idx st \<and> video_stream_idx st < int (length streams))
          \<or> snd (relay_loop E streams a b st 0 (frames E)) = Some OutOfBounds"
      by auto
    from setup_video_idx [OF st] a obtain k where "k < length streams"
      "video_stream_idx st = int (0 + k)" by auto
    then have v: "0 \<le> video_stream_idx st \<and> video_stream_idx st < int (length streams)" by simp
    have len: "length (stream_ctx st) = length streams"
      using setup_streams_facts [OF st] by (simp add: trim_init_def)
    have out: "\<forall>i<length streams. copied_kind (streams ! i) \<longrightarrow> i < length (out_streams st)"
      using setup_out_streams_prefix [OF st assms(3)] by blast
    from loop_no_out_of_bounds [OF len out, of "frames E" E a b 0] a c v
    show False by blast
  qed
qed

lemma sample_run_outputs: "output_streams sample_run ''in.mp4'' = Some [sample_video, sample_audio]"
  by (simp add: output_streams_def sample_run_def run_defs)

theorem packets_routed_by_source_index_witness:
  "open_input sample_run ''in.mp4'' = Opened [sample_video, sample_audio]
   \<and> output_streams sample_run ''in.mp4'' = Some [sample_video, sample_audio]
   \<and> copied_prefix [sample_video, sample_audio]
   \<and> map (\<lambda>qp. (stream_index (fst qp), stream_index (snd qp)))
        (relayed (snd (Trim sample_run ''in.mp4'' ''out.mp4'' ''00:00'' ''01:00'')))
       = [(0, 0), (1, 1), (1, 1), (0, 0), (0, 0)]
   \<and> list_all (\<lambda>qp. routed sample_run [sample_video, sample_audio] [sample_video, sample_audio] qp
                      \<and> [sample_video, sample_audio] ! nat (stream_index (fst qp))
                          = new_out_stream ([sample_video, sample_audio] ! nat (stream_index (fst qp))))
        (relayed (snd (Trim sample_run ''in.mp4'' ''out.mp4'' ''00:00'' ''01:00'')))
   \<and> fst (Trim sample_run ''in.mp4'' ''out.mp4'' ''00:00'' ''01:00'') \<noteq> Undefined OutOfBounds"
proof -
  have o: "open_input sample_run ''in.mp4'' = Opened [sample_video, sample_audio]"
    by (simp add: sample_run_def sample_env_def)
  have p: "copied_prefix [sample_video, sample_audio]"
    by (simp add: copied_prefix_def copied_kind_def sample_video_def sample_audio_def)
  have m: "map (\<lambda>qp. (stream_index (fst qp), stream_index (snd qp)))
        (relayed (snd (Trim sample_run ''in.mp4'' ''out.mp4'' ''00:00'' ''01:00'')))
       = [(0, 0), (1, 1), (1, 1), (0, 0), (0, 0)]"
    by (simp add: sample_run_trace relayed_def packet_def)
  have n: "fst (Trim sample_run ''in.mp4'' ''out.mp4'' ''00:00'' ''01:00'') \<noteq> Undefined OutOfBounds"
    by (simp add: sample_run_trace)
  note t = packets_routed_by_source_index [OF o sample_run_outputs p,
      of "''out.mp4''" "''00:00''" "''01:00''"]
  from t [THEN conjunct1] o sample_run_outputs p m n show ?thesis by blast
qed

text \<open>
  Without the hypothesis on the order of the streams the index of the source is not an
  index of the output. With a subtitle stream in front of the video stream the output
  has one stream, and the first accepted video packet reads \<^verbatim>\<open>out->streams[1]\<close>.
\<close>

lemma subtitle_first_out_of_bounds:
  "\<not> copied_prefix [sample_subtitle, sample_video]
   \<and> Trim (sample_env [sample_subtitle, sample_video] [packet 1 0 0 1])
        ''in.mp4'' ''out.mp4'' ''00:00'' ''00:10''
     = (Undefined OutOfBounds,
        [EvOpenInput ''in.mp4'' True, EvFindStreamInfo True, EvAllocOutput ''out.mp4'' True,
         EvAvioOpen ''out.mp4'' True, EvWriteHeader True, EvSeekFrame 1 0 True,
         EvReadFrame (Some (packet 1 0 0 1))])"
  by (simp add: parse_time_00_00 parse_time_00_10 run_defs sample_subtitle_def copied_prefix_def
        copied_kind_def)

end
